theory Spec2Isabelle
  imports Main "HOL-Library.Word" "HOL-Library.Multiset"
begin

unbundle bit_operations_syntax

section \<open>Bytes and little-endian integers\<close>

type_synonym u8 = "8 word"
type_synonym bytes = "u8 list"

text \<open>
  A \<open>uint256\<close> is an array of 32 bytes. The class itself (uint256.h) is not part of the
  sources at hand; a value is kept as its byte list.
\<close>

type_synonym uint256 = bytes

text \<open>
  Modelled from the spec: the integer writers and readers of serialize.h, which is not
  part of the sources at hand. "All multi-byte integers little-endian": \<open>ser_le n w\<close> is
  the \<open>n\<close> low bytes of \<open>w\<close>, least significant first, and \<open>unser_le\<close> reads them back.
\<close>

primrec ser_le :: "nat \<Rightarrow> 'a::len word \<Rightarrow> bytes" where
  "ser_le 0 w = []"
| "ser_le (Suc n) w = ucast w # ser_le n (drop_bit 8 w)"

definition unser_le :: "bytes \<Rightarrow> 'a::len word" where
  "unser_le bs = foldr (\<lambda>b acc. ucast b OR push_bit 8 acc) bs 0"

text \<open>
  Modelled from the spec: \<open>uint256::operator<\<close> (uint256.h, not part of the sources at
  hand). The spec orders hashes lexicographically.
\<close>

definition uint256_less :: "uint256 \<Rightarrow> uint256 \<Rightarrow> bool" where
  "uint256_less a b = ord_class.lexordp a b"

section \<open>Inventory items (class CInv of protocol.h)\<close>

text \<open>\<open>const uint32_t MSG_TYPE_MASK = 0xffffffff >> 3\<close>\<close>

definition MSG_TYPE_MASK :: "32 word" where
  "MSG_TYPE_MASK = drop_bit 3 0xffffffff"

text \<open>The enumeration \<open>GetDataMsg\<close>, by its numbers.\<close>

definition UNDEFINED :: "32 word" where "UNDEFINED = 0"
definition MSG_TX :: "32 word" where "MSG_TX = 1"
definition MSG_BLOCK :: "32 word" where "MSG_BLOCK = 2"
definition MSG_FILTERED_BLOCK :: "32 word" where "MSG_FILTERED_BLOCK = 3"
definition MSG_CMPCT_BLOCK :: "32 word" where "MSG_CMPCT_BLOCK = 4"

record CInv =
  type :: "32 word"
  hash :: uint256

text \<open>\<open>operator<\<close>: \<open>a.type < b.type || (a.type == b.type && a.hash < b.hash)\<close>\<close>

definition CInv_less :: "CInv \<Rightarrow> CInv \<Rightarrow> bool" where
  "CInv_less a b =
     (type a < type b \<or> (type a = type b \<and> uint256_less (hash a) (hash b)))"

text \<open>\<open>operator==\<close>: \<open>a.type == b.type && a.hash == b.hash\<close>\<close>

definition CInv_eq :: "CInv \<Rightarrow> CInv \<Rightarrow> bool" where
  "CInv_eq a b = (type a = type b \<and> hash a = hash b)"

definition GetKind :: "CInv \<Rightarrow> 32 word" where
  "GetKind c = type c AND MSG_TYPE_MASK"

definition IsTx :: "CInv \<Rightarrow> bool" where
  "IsTx c = (let k = GetKind c in k = MSG_TX)"

definition IsSomeBlock :: "CInv \<Rightarrow> bool" where
  "IsSomeBlock c =
     (let k = GetKind c in k = MSG_BLOCK \<or> k = MSG_FILTERED_BLOCK \<or> k = MSG_CMPCT_BLOCK)"

text \<open>
  \<open>estimateMaxInvElements\<close>: \<open>(maxPayloadLength - 8) / (4 + 32)\<close> on \<open>unsigned int\<close>,
  so the subtraction wraps around below 8.
\<close>

definition estimateMaxInvElements :: "32 word \<Rightarrow> 32 word" where
  "estimateMaxInvElements maxPayloadLength = (maxPayloadLength - 8) div (4 + 32)"

text \<open>
  Sorting with \<open>operator<\<close> as the comparison (what \<open>std::sort\<close> is given): insertion
  sort, each element placed before the first one it is less than.
\<close>

fun insort_CInv :: "CInv \<Rightarrow> CInv list \<Rightarrow> CInv list" where
  "insort_CInv x [] = [x]"
| "insort_CInv x (y # ys) =
     (if CInv_less x y then x # y # ys else y # insort_CInv x ys)"

definition sort_CInv :: "CInv list \<Rightarrow> CInv list" where
  "sort_CInv xs = foldr insort_CInv xs []"

section \<open>Streams and errors\<close>

text \<open>
  What the code throws becomes an error value: \<open>std::ios_base::failure\<close> when a stream
  runs out of data, when a bounded string is longer than its bound, or when a protoconf
  message declares no fields.
\<close>

datatype error =
  EndOfData
  | StringLengthLimitExceeded
  | InvalidDeserialization

text \<open>A reader takes what it reads off the front of the stream and returns the rest.\<close>

type_synonym 'a reader = "bytes \<Rightarrow> error + ('a \<times> bytes)"

text \<open>
  Modelled from the spec: reading from a data stream (streams.h and serialize.h are not part
  of the sources at hand). Reading \<open>n\<close> bytes fails when fewer are left; a 32-bit and a
  64-bit integer are 4 and 8 bytes, little-endian.
\<close>

definition read_bytes :: "nat \<Rightarrow> bytes reader" where
  "read_bytes n s = (if length s < n then Inl EndOfData else Inr (take n s, drop n s))"

definition read_u32 :: "(32 word) reader" where
  "read_u32 s =
     (case read_bytes 4 s of Inl e \<Rightarrow> Inl e | Inr (b, s') \<Rightarrow> Inr (unser_le b, s'))"

definition read_u64 :: "(64 word) reader" where
  "read_u64 s =
     (case read_bytes 8 s of Inl e \<Rightarrow> Inl e | Inr (b, s') \<Rightarrow> Inr (unser_le b, s'))"

text \<open>
  Modelled from the spec: \<open>LIMITED_STRING\<close> (serialize.h, not part of the sources at hand),
  a string with a length prefix whose length is bounded: "exceeding the bound is a
  deserialization failure, not a truncation". The reader of the variable-length prefix
  (\<open>ReadCompactSize\<close>) is a parameter, its format being no part of the spec.
\<close>

definition read_limited_string :: "(64 word) reader \<Rightarrow> nat \<Rightarrow> bytes reader" where
  "read_limited_string ReadCompactSize Limit s =
     (case ReadCompactSize s of
        Inl e \<Rightarrow> Inl e
      | Inr (sz, s1) \<Rightarrow>
          if Limit < unat sz then Inl StringLengthLimitExceeded
          else read_bytes (unat sz) s1)"

section \<open>Protoconf (class CProtoconf of protocol.h)\<close>

definition MAX_NUM_STREAM_POLICIES :: nat where
  "MAX_NUM_STREAM_POLICIES = 10"

record CProtoconf =
  numberOfFields :: "64 word"
  maxRecvPayloadLength :: "32 word"
  streamPolicies :: bytes

text \<open>The default constructor: \<open>numberOfFields {2}\<close>, the other members empty.\<close>

definition CProtoconf_default :: CProtoconf where
  "CProtoconf_default =
     \<lparr>numberOfFields = 2, maxRecvPayloadLength = 0, streamPolicies = []\<rparr>"

text \<open>
  \<open>SerializationOp\<close> when reading: the field count, then the receive length if the count
  is above 0, then the stream policies if it is above 1; a count of 0 throws. The constant
  \<open>MAX_STREAM_POLICY_NAME_LENGTH\<close> (net_types.h) is not part of the sources at hand
  and is a parameter, as is the reader of the count.
\<close>

definition CProtoconf_Unserialize ::
  "(64 word) reader \<Rightarrow> nat \<Rightarrow> CProtoconf \<Rightarrow> bytes \<Rightarrow> error + (CProtoconf \<times> bytes)" where
  "CProtoconf_Unserialize ReadCompactSize MAX_STREAM_POLICY_NAME_LENGTH p s =
     (case ReadCompactSize s of
        Inl e \<Rightarrow> Inl e
      | Inr (n, s1) \<Rightarrow>
          let p1 = p\<lparr>numberOfFields := n\<rparr> in
          if n > 0 then
            (case read_u32 s1 of
               Inl e \<Rightarrow> Inl e
             | Inr (v, s2) \<Rightarrow>
                 let p2 = p1\<lparr>maxRecvPayloadLength := v\<rparr> in
                 if n > 1 then
                   (case read_limited_string ReadCompactSize
                           ((MAX_STREAM_POLICY_NAME_LENGTH + 1) * MAX_NUM_STREAM_POLICIES) s2 of
                      Inl e \<Rightarrow> Inl e
                    | Inr (str, s3) \<Rightarrow> Inr (p2\<lparr>streamPolicies := str\<rparr>, s3))
                 else Inr (p2, s2))
          else Inl InvalidDeserialization)"

text \<open>A reader of a count held in one byte, to run the deserialization on examples.\<close>

definition read_count_byte :: "(64 word) reader" where
  "read_count_byte s = (case s of [] \<Rightarrow> Inl EndOfData | b # r \<Rightarrow> Inr (ucast b, r))"

section \<open>Message header (protocol.h)\<close>

text \<open>The sizes of \<open>CMessageFields\<close>.\<close>

definition MESSAGE_START_SIZE :: nat where "MESSAGE_START_SIZE = 4"
definition COMMAND_SIZE :: nat where "COMMAND_SIZE = 12"
definition CHECKSUM_SIZE :: nat where "CHECKSUM_SIZE = 4"
definition BASIC_MESSAGE_SIZE_SIZE :: nat where "BASIC_MESSAGE_SIZE_SIZE = 4"
definition EXTENDED_MESSAGE_SIZE_SIZE :: nat where "EXTENDED_MESSAGE_SIZE_SIZE = 8"

definition BASIC_HEADER_SIZE :: nat where
  "BASIC_HEADER_SIZE =
     MESSAGE_START_SIZE + COMMAND_SIZE + BASIC_MESSAGE_SIZE_SIZE + CHECKSUM_SIZE"

definition EXTENDED_HEADER_SIZE :: nat where
  "EXTENDED_HEADER_SIZE =
     MESSAGE_START_SIZE + COMMAND_SIZE + BASIC_MESSAGE_SIZE_SIZE + CHECKSUM_SIZE
       + COMMAND_SIZE + EXTENDED_MESSAGE_SIZE_SIZE"

record CExtendedMessageHeader =
  ext_pchCommand :: bytes
  ext_nPayloadLength :: "64 word"

text \<open>The default constructor: the command zeroed, the length \<open>uint64_t\<close>'s maximum.\<close>

definition CExtendedMessageHeader_default :: CExtendedMessageHeader where
  "CExtendedMessageHeader_default =
     \<lparr>ext_pchCommand = replicate COMMAND_SIZE 0, ext_nPayloadLength = 0xFFFFFFFFFFFFFFFF\<rparr>"

record CMessageHeader =
  pchMessageStart :: bytes
  pchCommand :: bytes
  nPayloadLength :: "32 word"
  pchChecksum :: bytes
  extendedFields :: "CExtendedMessageHeader option"
  complete :: bool

text \<open>
  \<open>CMessageHeader(pchMessageStartIn)\<close>: the magic as given, every other member as its
  initialiser in the class says.
\<close>

definition CMessageHeader_init :: "bytes \<Rightarrow> CMessageHeader" where
  "CMessageHeader_init pchMessageStartIn =
     \<lparr>pchMessageStart = pchMessageStartIn, pchCommand = replicate COMMAND_SIZE 0,
      nPayloadLength = 0xFFFFFFFF, pchChecksum = replicate CHECKSUM_SIZE 0,
      extendedFields = None, complete = False\<rparr>"

text \<open>\<open>IsExtended()\<close>: \<open>extendedFields.has_value()\<close>; \<open>Complete()\<close>: the flag \<open>complete\<close>.\<close>

definition IsExtended :: "CMessageHeader \<Rightarrow> bool" where
  "IsExtended h = (extendedFields h \<noteq> None)"

definition hdr_Complete :: "CMessageHeader \<Rightarrow> bool" where
  "hdr_Complete h = complete h"

text \<open>\<open>CExtendedMessageHeader::SerializationOp\<close>, writing and reading.\<close>

definition CExtendedMessageHeader_Serialize :: "CExtendedMessageHeader \<Rightarrow> bytes" where
  "CExtendedMessageHeader_Serialize e = ext_pchCommand e @ ser_le 8 (ext_nPayloadLength e)"

definition CExtendedMessageHeader_Unserialize ::
  "CExtendedMessageHeader \<Rightarrow> bytes \<Rightarrow> error + (CExtendedMessageHeader \<times> bytes)" where
  "CExtendedMessageHeader_Unserialize e s =
     (case read_bytes COMMAND_SIZE s of
        Inl err \<Rightarrow> Inl err
      | Inr (c, s1) \<Rightarrow>
          (case read_u64 s1 of
             Inl err \<Rightarrow> Inl err
           | Inr (l, s2) \<Rightarrow> Inr (e\<lparr>ext_pchCommand := c, ext_nPayloadLength := l\<rparr>, s2)))"

text \<open>
  \<open>CMessageHeader::SerializationOp\<close>, writing and reading: the magic, the command, the
  32-bit length and the checksum, and the extended fields if the header has them.
\<close>

definition CMessageHeader_Serialize :: "CMessageHeader \<Rightarrow> bytes" where
  "CMessageHeader_Serialize h =
     pchMessageStart h @ pchCommand h @ ser_le 4 (nPayloadLength h) @ pchChecksum h
     @ (if IsExtended h then CExtendedMessageHeader_Serialize (the (extendedFields h)) else [])"

definition CMessageHeader_Unserialize ::
  "CMessageHeader \<Rightarrow> bytes \<Rightarrow> error + (CMessageHeader \<times> bytes)" where
  "CMessageHeader_Unserialize h s =
     (case read_bytes MESSAGE_START_SIZE s of
        Inl err \<Rightarrow> Inl err
      | Inr (m, s1) \<Rightarrow>
      (case read_bytes COMMAND_SIZE s1 of
        Inl err \<Rightarrow> Inl err
      | Inr (c, s2) \<Rightarrow>
      (case read_u32 s2 of
        Inl err \<Rightarrow> Inl err
      | Inr (l, s3) \<Rightarrow>
      (case read_bytes CHECKSUM_SIZE s3 of
        Inl err \<Rightarrow> Inl err
      | Inr (k, s4) \<Rightarrow>
          let h' = h\<lparr>pchMessageStart := m, pchCommand := c, nPayloadLength := l,
                     pchChecksum := k\<rparr> in
          if IsExtended h' then
            (case CExtendedMessageHeader_Unserialize (the (extendedFields h')) s4 of
               Inl err \<Rightarrow> Inl err
             | Inr (e, s5) \<Rightarrow> Inr (h'\<lparr>extendedFields := Some e\<rparr>, s5))
          else Inr (h', s4)))))"

text \<open>
  The members of \<open>CMessageHeader\<close> that follow are declared in protocol.h and defined in
  protocol.cpp, which is not part of the sources at hand.

  Modelled from the spec: the static \<open>IsExtended(payloadSize)\<close> (defined in protocol.cpp).
  Extended framing is chosen "when the payload length exceeds the representable range of the
  4-byte basic length field or is given the sentinel value".
\<close>

definition IsExtended_size :: "64 word \<Rightarrow> bool" where
  "IsExtended_size payloadSize = (0xFFFFFFFF \<le> payloadSize)"

text \<open>
  Modelled from the spec: \<open>GetHeaderSizeForPayload(payloadSize)\<close> (defined in protocol.cpp),
  the size of the header the encoder makes: that of an extended header when the framing is
  extended, that of a basic header otherwise.
\<close>

definition GetHeaderSizeForPayload :: "64 word \<Rightarrow> nat" where
  "GetHeaderSizeForPayload payloadSize =
     (if IsExtended_size payloadSize then EXTENDED_HEADER_SIZE else BASIC_HEADER_SIZE)"

text \<open>
  Modelled from the spec: how the constructors of protocol.cpp fill the command field. A
  command is a "12-byte, NUL-padded ASCII token": \<open>fill_command\<close> copies a C string (which
  ends at its first NUL) into the 12-byte field and pads it with NUL.
\<close>

definition fill_command :: "bytes \<Rightarrow> bytes" where
  "fill_command pszCommand =
     take COMMAND_SIZE (takeWhile (\<lambda>c. c \<noteq> 0) pszCommand @ replicate COMMAND_SIZE 0)"

text \<open>
  Modelled from the spec: how \<open>GetCommand\<close> of protocol.cpp reads the command field, the
  string up to the first NUL of the 12 bytes.
\<close>

definition read_command :: "bytes \<Rightarrow> bytes" where
  "read_command pch = takeWhile (\<lambda>c. c \<noteq> 0) (take COMMAND_SIZE pch)"

text \<open>
  Modelled from the spec: \<open>NetMsgType::EXTMSG\<close> (declared in protocol.h, defined in
  protocol.cpp), the fixed "extmsg" marker in the basic command of an extended header.
\<close>

definition EXTMSG :: bytes where
  "EXTMSG = [0x65, 0x78, 0x74, 0x6D, 0x73, 0x67]"

text \<open>
  Modelled from the spec: the private constructor
  \<open>CMessageHeader(pchMessageStartIn, pszCommand, nPayloadLengthIn, payloadHash)\<close> (defined in
  protocol.cpp), the encoder of a header. It "chooses extended framing automatically (and
  only)" by \<open>IsExtended(payloadSize)\<close>; an extended header has the sentinel as basic length,
  the marker as basic command, and the command and length in the extended fields; the
  checksum is "the first 4 bytes of a double-round cryptographic hash of the payload bytes",
  regenerated unconditionally.
\<close>

definition CMessageHeader_make :: "bytes \<Rightarrow> bytes \<Rightarrow> 64 word \<Rightarrow> uint256 \<Rightarrow> CMessageHeader" where
  "CMessageHeader_make pchMessageStartIn pszCommand nPayloadLengthIn payloadHash =
     (if IsExtended_size nPayloadLengthIn then
        \<lparr>pchMessageStart = pchMessageStartIn, pchCommand = fill_command EXTMSG,
         nPayloadLength = 0xFFFFFFFF, pchChecksum = take CHECKSUM_SIZE payloadHash,
         extendedFields = Some \<lparr>ext_pchCommand = fill_command pszCommand,
                                 ext_nPayloadLength = nPayloadLengthIn\<rparr>,
         complete = True\<rparr>
      else
        \<lparr>pchMessageStart = pchMessageStartIn, pchCommand = fill_command pszCommand,
         nPayloadLength = ucast nPayloadLengthIn, pchChecksum = take CHECKSUM_SIZE payloadHash,
         extendedFields = None, complete = True\<rparr>)"

text \<open>
  Modelled from the spec: \<open>CMessageHeader::GetCommand\<close> (defined in protocol.cpp). When the
  extended fields are present, "the basic command/length fields are ignored" and the command
  is the extended one.
\<close>

definition GetCommand :: "CMessageHeader \<Rightarrow> bytes" where
  "GetCommand h =
     (case extendedFields h of
        Some e \<Rightarrow> read_command (ext_pchCommand e)
      | None \<Rightarrow> read_command (pchCommand h))"

text \<open>
  Modelled from the spec: \<open>CMessageHeader::GetPayloadLength\<close> (defined in protocol.cpp). When
  the extended fields are present, the extended length "is authoritative"; otherwise it is the
  basic length.
\<close>

definition GetPayloadLength :: "CMessageHeader \<Rightarrow> 64 word" where
  "GetPayloadLength h =
     (case extendedFields h of
        Some e \<Rightarrow> ext_nPayloadLength e
      | None \<Rightarrow> ucast (nPayloadLength h))"

text \<open>
  Modelled from the spec: \<open>CMessageHeader::GetLength\<close> (defined in protocol.cpp), the size of
  the header: 24 bytes, or 44 with the extended fields.
\<close>

definition GetLength :: "CMessageHeader \<Rightarrow> 64 word" where
  "GetLength h =
     (if IsExtended h then of_nat EXTENDED_HEADER_SIZE else of_nat BASIC_HEADER_SIZE)"

text \<open>
  Modelled from the spec: \<open>CMessageHeader::Read(pch, numBytes, buff)\<close>, the decoder of a
  header, which protocol.h declares and protocol.cpp (not part of the sources at hand) defines.
  Bytes are taken from \<open>pch\<close> into the buffer until it holds the basic header, which is
  then deserialized with \<open>SerializationOp\<close>; if its length is the sentinel, the extended
  fields are required, taken and deserialized the same way. A header that is still incomplete
  has consumed every byte offered. The result is the number of bytes consumed, the header and
  the buffer, which is cleared once the header is complete. \<open>absorb requiredSize pch buff\<close>
  moves bytes from \<open>pch\<close> to the buffer until the buffer holds \<open>requiredSize\<close> bytes or
  \<open>pch\<close> is used up.
\<close>

definition absorb :: "nat \<Rightarrow> bytes \<Rightarrow> bytes \<Rightarrow> nat \<times> bytes" where
  "absorb requiredSize pch buff =
     (let k = min (requiredSize - length buff) (length pch) in (k, buff @ take k pch))"

text \<open>
  Modelled from the spec: the first stage of \<open>CMessageHeader::Read\<close>. While the buffer holds
  less than a basic header, bytes are taken up to its size; once they are all there the
  header is deserialized with \<open>SerializationOp\<close>, and it is complete unless its length is the
  sentinel, which makes the extended fields required.
\<close>

definition read_basic ::
  "CMessageHeader \<Rightarrow> bytes \<Rightarrow> bytes \<Rightarrow> error + (nat \<times> CMessageHeader \<times> bytes)" where
  "read_basic h pch buff =
     (if length buff < BASIC_HEADER_SIZE then
        (case absorb BASIC_HEADER_SIZE pch buff of
           (k, b) \<Rightarrow>
             if length b = BASIC_HEADER_SIZE then
               (case CMessageHeader_Unserialize h b of
                  Inl err \<Rightarrow> Inl err
                | Inr (h', _) \<Rightarrow>
                    if nPayloadLength h' = 0xFFFFFFFF
                    then Inr (k, h'\<lparr>extendedFields := Some CExtendedMessageHeader_default\<rparr>, b)
                    else Inr (k, h'\<lparr>complete := True\<rparr>, b))
             else Inr (k, h, b))
      else Inr (0, h, buff))"

text \<open>
  Modelled from the spec: the second stage of \<open>CMessageHeader::Read\<close>, for a header whose
  extended fields are required: bytes are taken up to the size of an extended header, and
  once they are all there the extended fields are deserialized and the header is complete.
\<close>

definition read_extended ::
  "CMessageHeader \<Rightarrow> bytes \<Rightarrow> bytes \<Rightarrow> error + (nat \<times> CMessageHeader \<times> bytes)" where
  "read_extended h pch buff =
     (if IsExtended h \<and> \<not> complete h \<and> length buff < EXTENDED_HEADER_SIZE then
        (case absorb EXTENDED_HEADER_SIZE pch buff of
           (k, b) \<Rightarrow>
             if length b = EXTENDED_HEADER_SIZE then
               (case CExtendedMessageHeader_Unserialize (the (extendedFields h))
                       (drop BASIC_HEADER_SIZE b) of
                  Inl err \<Rightarrow> Inl err
                | Inr (e, _) \<Rightarrow> Inr (k, h\<lparr>extendedFields := Some e, complete := True\<rparr>, b))
             else Inr (k, h, b))
      else Inr (0, h, buff))"

text \<open>
  Modelled from the spec: \<open>CMessageHeader::Read\<close>, the two stages one after the other on
  the bytes offered.
\<close>

definition CMessageHeader_Read ::
  "CMessageHeader \<Rightarrow> bytes \<Rightarrow> bytes \<Rightarrow> error + (nat \<times> CMessageHeader \<times> bytes)" where
  "CMessageHeader_Read h pch buff =
     (case read_basic h pch buff of
        Inl err \<Rightarrow> Inl err
      | Inr (n1, h1, b1) \<Rightarrow>
          (case read_extended h1 (drop n1 pch) b1 of
             Inl err \<Rightarrow> Inl err
           | Inr (n2, h2, b2) \<Rightarrow> Inr (n1 + n2, h2, if complete h2 then [] else b2)))"

text \<open>
  The configuration (class \<open>Config\<close>, declared only): the network magic and the registry's
  maximum message length for a command under that configuration
  (\<open>NetMsgType::GetMaxMessageLength\<close>, declared in protocol.h, defined elsewhere), both
  taken as given.
\<close>

record Config =
  NetMagic :: bytes
  GetMaxMessageLength :: "bytes \<Rightarrow> 64 word"

text \<open>
  Modelled from the spec: the command part of the validity check (defined in protocol.cpp):
  the command is a "NUL-padded", "printable token", printable characters followed by NUL bytes
  only.
\<close>

fun command_ok :: "bytes \<Rightarrow> bool" where
  "command_ok [] = True"
| "command_ok (c # cs) =
     (if c = 0 then list_all (\<lambda>x. x = 0) cs
      else 0x20 \<le> c \<and> c \<le> 0x7E \<and> command_ok cs)"

text \<open>
  Modelled from the spec: \<open>CheckHeaderMagicAndCommand(magic)\<close> (declared in protocol.h,
  defined in protocol.cpp): "magic correct, command is a NUL-terminated printable token".
\<close>

definition CheckHeaderMagicAndCommand :: "CMessageHeader \<Rightarrow> bytes \<Rightarrow> bool" where
  "CheckHeaderMagicAndCommand h magic =
     (pchMessageStart h = magic \<and> command_ok (pchCommand h))"

text \<open>
  Modelled from the spec: \<open>IsValid(config)\<close> (declared in protocol.h, defined in
  protocol.cpp), the check above against the magic of the configured network.
\<close>

definition IsValid :: "Config \<Rightarrow> CMessageHeader \<Rightarrow> bool" where
  "IsValid config h = CheckHeaderMagicAndCommand h (NetMagic config)"

text \<open>
  Modelled from the spec: \<open>IsOversized(config)\<close> (declared in protocol.h, defined in
  protocol.cpp): "declared payload length exceeds the registry's computed maximum for this
  command under current configuration".
\<close>

definition IsOversized :: "Config \<Rightarrow> CMessageHeader \<Rightarrow> bool" where
  "IsOversized config h =
     (GetMaxMessageLength config (GetCommand h) < GetPayloadLength h)"

section \<open>Incoming messages (class CNetMessage of net_message.h)\<close>

text \<open>
  The running hasher is kept as the bytes written to it so far; the hash function itself
  (hash.h) is a parameter of \<open>GetMessageHash\<close>. The data stream is used for the header's
  bytes while the header is read and for the payload afterwards.
\<close>

record CNetMessage =
  hasher :: bytes
  data_hash :: "uint256 option"
  dataBuff :: bytes
  hdr :: CMessageHeader
  nTime :: int

text \<open>
  What reading a message throws: a stream failure, or the exception \<open>BanPeer\<close> of
  net_message.h, kept with the reason for the ban and with the message as it is when the
  exception is thrown (the object outlives the throw, with what it has read so far).
\<close>

datatype ban_reason = Oversized | InvalidHeader

datatype thrown =
  IosFailure error
  | BanPeer ban_reason CNetMessage

definition CNetMessage_init :: "bytes \<Rightarrow> CNetMessage" where
  "CNetMessage_init pchMessageStartIn =
     \<lparr>hasher = [], data_hash = None, dataBuff = [],
      hdr = CMessageHeader_init pchMessageStartIn, nTime = 0\<rparr>"

text \<open>
  \<open>Complete\<close>: false while the header is incomplete, then
  \<open>hdr.GetPayloadLength() == dataBuff.size()\<close>.
\<close>

definition Complete :: "CNetMessage \<Rightarrow> bool" where
  "Complete m =
     (if \<not> hdr_Complete (hdr m) then False
      else unat (GetPayloadLength (hdr m)) = length (dataBuff m))"

text \<open>
  Modelled from the spec: \<open>CNetMessage::Read(config, pch, nBytes)\<close>, which net_message.h
  declares and net_message.cpp (not part of the sources at hand) defines. While the header is
  incomplete the bytes go to the header's decoder; once it has parsed a header,
  \<open>IsValid\<close> and \<open>IsOversized\<close> are evaluated at once, the validity first (a wrong magic
  is "the first framing check"), and an invalid or oversized header throws \<open>BanPeer\<close>, the
  message holding the header and nothing else. Afterwards the bytes still missing from the
  payload are appended to the buffer and written to the hasher. The result is the number of
  bytes consumed.
\<close>

definition CNetMessage_Read ::
  "Config \<Rightarrow> CNetMessage \<Rightarrow> bytes \<Rightarrow> thrown + (nat \<times> CNetMessage)" where
  "CNetMessage_Read config m pch =
     (if \<not> hdr_Complete (hdr m) then
        (case CMessageHeader_Read (hdr m) pch (dataBuff m) of
           Inl err \<Rightarrow> Inl (IosFailure err)
         | Inr (numRead, h, buff) \<Rightarrow>
             if hdr_Complete h \<and> \<not> IsValid config h
             then Inl (BanPeer InvalidHeader (m\<lparr>hdr := h, dataBuff := buff\<rparr>))
             else if hdr_Complete h \<and> IsOversized config h
             then Inl (BanPeer Oversized (m\<lparr>hdr := h, dataBuff := buff\<rparr>))
             else Inr (numRead, m\<lparr>hdr := h, dataBuff := buff\<rparr>))
      else
        let nRemaining = GetPayloadLength (hdr m) - of_nat (length (dataBuff m));
            nCopy = min (unat nRemaining) (length pch) in
        Inr (nCopy, m\<lparr>hasher := hasher m @ take nCopy pch,
                        dataBuff := dataBuff m @ take nCopy pch\<rparr>))"

text \<open>
  Modelled from the spec: \<open>CNetMessage::GetMessageHash\<close> (defined in net_message.cpp), which
  "finalizes (and memoizes) the running hash on first call".
\<close>

definition GetMessageHash :: "(bytes \<Rightarrow> uint256) \<Rightarrow> CNetMessage \<Rightarrow> uint256 \<times> CNetMessage" where
  "GetMessageHash Hash256 m =
     (case data_hash m of
        None \<Rightarrow> (let d = Hash256 (hasher m) in (d, m\<lparr>data_hash := Some d\<rparr>))
      | Some d \<Rightarrow> (d, m))"

text \<open>
  Modelled from the spec: \<open>CNetMessage::GetTotalLength\<close> (defined in net_message.cpp), the
  "header size + payload size".
\<close>

definition GetTotalLength :: "CNetMessage \<Rightarrow> 64 word" where
  "GetTotalLength m = GetLength (hdr m) + GetPayloadLength (hdr m)"

text \<open>
  Modelled from the spec: the receive path of the connection (not part of the sources at
  hand) for one chunk of bytes. It offers the bytes it has to \<open>Read\<close>, drops what was
  consumed and goes on until the bytes are used up or the message is complete; it also stops
  if \<open>Read\<close> consumes nothing.
\<close>

function feed_all :: "Config \<Rightarrow> CNetMessage \<Rightarrow> bytes \<Rightarrow> thrown + CNetMessage" where
  "feed_all config m bs =
     (if bs = [] \<or> Complete m then Inr m
      else (case CNetMessage_Read config m bs of
              Inl err \<Rightarrow> Inl err
            | Inr (n, m') \<Rightarrow> if n = 0 then Inr m' else feed_all config m' (drop n bs)))"
  by pat_completeness auto
termination
  by (relation "measure (\<lambda>(config, m, bs). length bs)") auto

text \<open>
  Modelled from the spec: the receive path of the connection for a sequence of chunks, each
  fed in turn to the same message.
\<close>

fun feed_chunks :: "Config \<Rightarrow> CNetMessage \<Rightarrow> bytes list \<Rightarrow> thrown + CNetMessage" where
  "feed_chunks config m [] = Inr m"
| "feed_chunks config m (c # cs) =
     (case feed_all config m c of Inl err \<Rightarrow> Inl err | Inr m' \<Rightarrow> feed_chunks config m' cs)"

text \<open>
  Modelled from the spec: \<open>encode(command, payload)\<close> of the send path, the serialized
  header made for the command, the payload's length and hash, followed by the payload.
\<close>

definition encode :: "(bytes \<Rightarrow> uint256) \<Rightarrow> bytes \<Rightarrow> bytes \<Rightarrow> bytes \<Rightarrow> bytes" where
  "encode Hash256 magic command payload =
     CMessageHeader_Serialize
       (CMessageHeader_make magic command (of_nat (length payload)) (Hash256 payload))
     @ payload"

section \<open>Auxiliary notions for the proofs\<close>

text \<open>
  The bytes of the basic part of a header; the field sizes of a header as arrays have them;
  a header as it goes over the wire (complete, with the sentinel length exactly when the
  extended fields are present); combinators to state how a read of \<open>a @ b\<close> continues a
  read of \<open>a\<close>; the payload bytes still missing; and data for examples.
\<close>

definition basic_bytes :: "CMessageHeader \<Rightarrow> bytes" where
  "basic_bytes g = pchMessageStart g @ pchCommand g @ ser_le 4 (nPayloadLength g) @ pchChecksum g"

definition hdr_wf :: "CMessageHeader \<Rightarrow> bool" where
  "hdr_wf g \<longleftrightarrow> length (pchMessageStart g) = 4 \<and> length (pchCommand g) = 12
     \<and> length (pchChecksum g) = 4
     \<and> (case extendedFields g of None \<Rightarrow> True | Some e \<Rightarrow> length (ext_pchCommand e) = 12)"

definition wire_header :: "CMessageHeader \<Rightarrow> bool" where
  "wire_header g \<longleftrightarrow>
     length (pchMessageStart g) = MESSAGE_START_SIZE \<and> length (pchCommand g) = COMMAND_SIZE
     \<and> length (pchChecksum g) = CHECKSUM_SIZE \<and> complete g
     \<and> (case extendedFields g of
           None \<Rightarrow> nPayloadLength g \<noteq> 0xFFFFFFFF
         | Some e \<Rightarrow> nPayloadLength g = 0xFFFFFFFF \<and> length (ext_pchCommand e) = COMMAND_SIZE)"

definition shift :: "nat \<Rightarrow> 'e + (nat \<times> 'a) \<Rightarrow> 'e + (nat \<times> 'a)" where
  "shift k r = (case r of Inl e \<Rightarrow> Inl e | Inr (n, x) \<Rightarrow> Inr (k + n, x))"

definition finish_ext ::
  "nat \<Rightarrow> error + (nat \<times> CMessageHeader \<times> bytes) \<Rightarrow> error + (nat \<times> CMessageHeader \<times> bytes)" where
  "finish_ext n1 r =
     (case r of Inl e \<Rightarrow> Inl e
      | Inr (n2, h2, b2) \<Rightarrow> Inr (n1 + n2, h2, if complete h2 then [] else b2))"

definition continue_hdr ::
  "bytes \<Rightarrow> error + (nat \<times> CMessageHeader \<times> bytes) \<Rightarrow> error + (nat \<times> CMessageHeader \<times> bytes)" where
  "continue_hdr X r =
     (case r of Inl e \<Rightarrow> Inl e
      | Inr (n, h', b') \<Rightarrow>
          if complete h' then Inr (n, h', b')
          else shift n (CMessageHeader_Read h' (drop n X) b'))"

definition remaining :: "CNetMessage \<Rightarrow> nat" where
  "remaining m = unat (GetPayloadLength (hdr m) - of_nat (length (dataBuff m)))"

definition continue_msg ::
  "Config \<Rightarrow> CNetMessage \<Rightarrow> bytes \<Rightarrow> thrown + (nat \<times> CNetMessage) \<Rightarrow> thrown + (nat \<times> CNetMessage)" where
  "continue_msg config m X r =
     (case r of Inl e \<Rightarrow> Inl e
      | Inr (n, m') \<Rightarrow>
          if \<not> complete (hdr m) \<and> complete (hdr m') then Inr (n, m')
          else shift n (CNetMessage_Read config m' (drop n X)))"

definition check_hdr ::
  "Config \<Rightarrow> CNetMessage \<Rightarrow> error + (nat \<times> CMessageHeader \<times> bytes) \<Rightarrow> thrown + (nat \<times> CNetMessage)" where
  "check_hdr config m r =
     (case r of Inl e \<Rightarrow> Inl (IosFailure e)
      | Inr (n, h, buff) \<Rightarrow>
          if complete h \<and> \<not> IsValid config h
          then Inl (BanPeer InvalidHeader (m\<lparr>hdr := h, dataBuff := buff\<rparr>))
          else if complete h \<and> IsOversized config h
          then Inl (BanPeer Oversized (m\<lparr>hdr := h, dataBuff := buff\<rparr>))
          else Inr (n, m\<lparr>hdr := h, dataBuff := buff\<rparr>))"

definition example_magic :: bytes where
  "example_magic = [0xE3, 0xE1, 0xF3, 0xE8]"

definition example_hash :: "bytes \<Rightarrow> uint256" where
  "example_hash bs = replicate 32 (of_nat (length bs))"

definition example_command :: bytes where
  "example_command = [0x70, 0x69, 0x6E, 0x67]"

definition example_config :: Config where
  "example_config = \<lparr>NetMagic = example_magic, GetMaxMessageLength = (\<lambda>command. 100)\<rparr>"

declare feed_all.simps [simp del]

section \<open>Facts about little-endian integers\<close>

lemma unser_le_Nil [simp]: "unser_le [] = 0"
  by (simp add: unser_le_def)

lemma unser_le_Cons [simp]: "unser_le (b # bs) = ucast b OR push_bit 8 (unser_le bs)"
  by (simp add: unser_le_def)

lemma length_ser_le [simp]: "length (ser_le n w) = n"
  by (induction n arbitrary: w) auto

lemma unser_ser_le: "(unser_le (ser_le n w) :: 'a::len word) = take_bit (8 * n) w"
proof (induction n arbitrary: w)
  case 0
  show ?case by simp
next
  case (Suc n)
  have "(ucast (ucast w :: u8) :: 'a word) OR push_bit 8 (take_bit (8 * n) (drop_bit 8 w))
          = take_bit (8 * Suc n) w"
    by (rule bit_word_eqI) (auto simp add: bit_simps)
  with Suc show ?case by simp
qed

lemma unser_ser_u32 [simp]: "unser_le (ser_le 4 (w :: 32 word)) = w"
  by (simp add: unser_ser_le take_bit_word_eq_self)

lemma unser_ser_u64 [simp]: "unser_le (ser_le 8 (w :: 64 word)) = w"
  by (simp add: unser_ser_le take_bit_word_eq_self)

section \<open>Inventory items: classification\<close>

lemma MSG_TYPE_MASK_value: "MSG_TYPE_MASK = 0x1fffffff"
  by (simp add: MSG_TYPE_MASK_def)

text \<open>
  C9. \<open>IsTx\<close> holds exactly when the type with its three high bits masked off is
  \<open>MSG_TX\<close> (1); \<open>IsSomeBlock\<close> exactly when the masked type is \<open>MSG_BLOCK\<close> (2),
  \<open>MSG_FILTERED_BLOCK\<close> (3) or \<open>MSG_CMPCT_BLOCK\<close> (4); a masked type above 4, outside the
  enumeration, is neither.
\<close>

theorem IsTx_IsSomeBlock_masked:
  "(IsTx c \<longleftrightarrow> type c AND 0x1fffffff = 1)
   \<and> (IsSomeBlock c \<longleftrightarrow> type c AND 0x1fffffff \<in> {2, 3, 4})
   \<and> (4 < (type c AND 0x1fffffff) \<longrightarrow> \<not> IsTx c \<and> \<not> IsSomeBlock c)"
  by (auto simp add: IsTx_def IsSomeBlock_def GetKind_def MSG_TYPE_MASK_value Let_def
      MSG_TX_def MSG_BLOCK_def MSG_FILTERED_BLOCK_def MSG_CMPCT_BLOCK_def)

theorem IsTx_IsSomeBlock_masked_witness:
  "4 < ((0x20000007 :: 32 word) AND 0x1fffffff)
   \<and> \<not> IsTx \<lparr>type = 0x20000007, hash = []\<rparr>
   \<and> \<not> IsSomeBlock \<lparr>type = 0x20000007, hash = []\<rparr>
   \<and> IsTx \<lparr>type = 0x20000001, hash = []\<rparr>
   \<and> IsSomeBlock \<lparr>type = 0x40000003, hash = []\<rparr>"
  using IsTx_IsSomeBlock_masked [of "\<lparr>type = 0x20000007, hash = []\<rparr>"]
    IsTx_IsSomeBlock_masked [of "\<lparr>type = 0x20000001, hash = []\<rparr>"]
    IsTx_IsSomeBlock_masked [of "\<lparr>type = 0x40000003, hash = []\<rparr>"]
  by simp

section \<open>Inventory items: capacity estimate\<close>

lemma estimateMaxInvElements_fits:
  assumes "8 \<le> m"
  shows "8 + 36 * unat (estimateMaxInvElements m) \<le> unat m"
proof -
  have sub: "unat (m - 8) = unat m - 8"
    using assms by (simp add: unat_sub)
  have "unat (estimateMaxInvElements m) = (unat m - 8) div 36"
    by (simp add: estimateMaxInvElements_def unat_div sub)
  moreover have "8 \<le> unat m"
    using assms by (simp add: word_le_nat_alt)
  ultimately show ?thesis by simp
qed

text \<open>
  C7. For a budget of 0 bytes the subtraction \<open>maxPayloadLength - 8\<close> wraps around to
  \<open>2^32 - 8\<close> and the estimate is 119304646 items, whose message (8 bytes of count and
  36 bytes per item) is far larger than the budget.
\<close>

theorem estimateMaxInvElements_wraps:
  "estimateMaxInvElements 0 = 119304646
   \<and> \<not> 8 + 36 * unat (estimateMaxInvElements 0) \<le> unat (0 :: 32 word)"
  by (simp add: estimateMaxInvElements_def)

section \<open>Inventory items: ordering\<close>

lemma uint256_less_irrefl: "\<not> uint256_less a a"
  by (simp add: uint256_less_def lexordp_irreflexive')

lemma uint256_less_trans: "uint256_less a b \<Longrightarrow> uint256_less b c \<Longrightarrow> uint256_less a c"
  unfolding uint256_less_def by (rule lexordp_trans)

lemma uint256_less_linear: "uint256_less a b \<or> a = b \<or> uint256_less b a"
  unfolding uint256_less_def by (rule lexordp_linear)

lemma CInv_less_irrefl: "\<not> CInv_less a a"
  by (simp add: CInv_less_def uint256_less_irrefl)

lemma CInv_less_trans:
  assumes "CInv_less a b" "CInv_less b c"
  shows "CInv_less a c"
proof -
  from assms have le: "type a \<le> type b" "type b \<le> type c"
    by (auto simp: CInv_less_def)
  show ?thesis
  proof (cases "type a < type c")
    case True
    then show ?thesis by (simp add: CInv_less_def)
  next
    case False
    with le have eq: "type a = type b" "type b = type c"
      by auto
    with assms have "uint256_less (hash a) (hash b)" "uint256_less (hash b) (hash c)"
      by (simp_all add: CInv_less_def)
    then have "uint256_less (hash a) (hash c)" by (rule uint256_less_trans)
    with eq show ?thesis by (simp add: CInv_less_def)
  qed
qed

lemma CInv_less_linear: "CInv_less a b \<or> a = b \<or> CInv_less b a"
proof (cases "type a = type b")
  case True
  with uint256_less_linear [of "hash a" "hash b"] show ?thesis
    by (auto simp add: CInv_less_def)
next
  case False
  then have "type a < type b \<or> type b < type a" by auto
  then show ?thesis by (auto simp add: CInv_less_def)
qed

lemma CInv_less_asym: "CInv_less a b \<Longrightarrow> \<not> CInv_less b a"
  using CInv_less_trans [of a b a] CInv_less_irrefl [of a] by blast

lemma CInv_eq_iff: "CInv_eq a b \<longleftrightarrow> a = b"
  by (auto simp add: CInv_eq_def intro: CInv.equality)

lemma CInv_not_less_antisym: "\<not> CInv_less b a \<Longrightarrow> \<not> CInv_less a b \<Longrightarrow> a = b"
  using CInv_less_linear [of a b] by blast

lemma CInv_not_less_trans:
  "\<not> CInv_less b a \<Longrightarrow> \<not> CInv_less c b \<Longrightarrow> \<not> CInv_less c a"
  using CInv_less_linear [of a b] CInv_less_linear [of b c] CInv_less_trans CInv_less_irrefl
  by metis

lemma mset_insort_CInv: "mset (insort_CInv x xs) = add_mset x (mset xs)"
  by (induction xs) auto

lemma set_insort_CInv: "set (insort_CInv x xs) = insert x (set xs)"
  by (induction xs) auto

lemma sorted_insort_CInv:
  "sorted_wrt (\<lambda>a b. \<not> CInv_less b a) xs
   \<Longrightarrow> sorted_wrt (\<lambda>a b. \<not> CInv_less b a) (insort_CInv x xs)"
proof (induction xs)
  case Nil
  show ?case by simp
next
  case (Cons y ys)
  show ?case
  proof (cases "CInv_less x y")
    case True
    then have "\<not> CInv_less y x" by (rule CInv_less_asym)
    moreover have "\<forall>z\<in>set ys. \<not> CInv_less z x"
      using Cons.prems \<open>\<not> CInv_less y x\<close> CInv_not_less_trans [of y x] by auto
    ultimately show ?thesis using True Cons.prems by simp
  next
    case False
    with Cons show ?thesis by (auto simp add: set_insort_CInv)
  qed
qed

lemma mset_sort_CInv: "mset (sort_CInv xs) = mset xs"
  by (induction xs) (simp_all add: sort_CInv_def mset_insort_CInv)

lemma sorted_sort_CInv: "sorted_wrt (\<lambda>a b. \<not> CInv_less b a) (sort_CInv xs)"
  by (induction xs) (simp_all add: sort_CInv_def sorted_insort_CInv)

lemma CInv_sorted_unique:
  "sorted_wrt (\<lambda>a b. \<not> CInv_less b a) xs \<Longrightarrow> sorted_wrt (\<lambda>a b. \<not> CInv_less b a) ys
   \<Longrightarrow> mset xs = mset ys \<Longrightarrow> xs = ys"
proof (induction xs arbitrary: ys)
  case Nil
  then show ?case by simp
next
  case (Cons x xs)
  from Cons.prems(3) obtain y ys' where ys: "ys = y # ys'"
    by (cases ys) auto
  have "x \<in> set ys" "y \<in> set (x # xs)"
    using Cons.prems(3) ys by (metis list.set_intros(1) mset_eq_setD)+
  then have "\<not> CInv_less x y" "\<not> CInv_less y x"
    using Cons.prems(1,2) ys CInv_less_irrefl by auto
  then have "x = y" by (rule CInv_not_less_antisym [symmetric])
  with Cons.prems ys have "xs = ys'"
    by (intro Cons.IH) auto
  with \<open>x = y\<close> ys show ?case by simp
qed

lemma sort_CInv_unique:
  assumes "sorted_wrt CInv_less ys" "mset xs = mset ys"
  shows "sort_CInv xs = ys"
proof -
  have "sorted_wrt (\<lambda>a b. \<not> CInv_less b a) ys"
    using assms(1) by (rule sorted_wrt_mono_rel [rotated]) (simp add: CInv_less_asym)
  then show ?thesis
    using sorted_sort_CInv [of xs] mset_sort_CInv [of xs] assms(2)
    by (intro CInv_sorted_unique) simp_all
qed

text \<open>
  C8. \<open>operator<\<close> on inventory items is a strict total order, by type first and by hash
  second: it is irreflexive and transitive, any two items are ordered one way or the other
  or are equal under \<open>operator==\<close>, which holds exactly when both fields are equal (and then
  neither is less than the other); and for three items \<open>A < B < C\<close>, sorting any
  permutation of them gives \<open>[A, B, C]\<close>.
\<close>

theorem CInv_less_strict_total_order:
  "\<not> CInv_less a a
   \<and> (CInv_less a b \<longrightarrow> CInv_less b c \<longrightarrow> CInv_less a c)
   \<and> (CInv_less a b \<or> CInv_eq a b \<or> CInv_less b a)
   \<and> (CInv_eq a b \<longleftrightarrow> type a = type b \<and> hash a = hash b)
   \<and> (CInv_eq a b \<longleftrightarrow> \<not> CInv_less a b \<and> \<not> CInv_less b a)
   \<and> (CInv_less a b \<longleftrightarrow>
        type a < type b \<or> (type a = type b \<and> ord_class.lexordp (hash a) (hash b)))
   \<and> (CInv_less A B \<longrightarrow> CInv_less B C \<longrightarrow> mset xs = {#A, B, C#}
        \<longrightarrow> sort_CInv xs = [A, B, C])"
proof -
  have sort3: "sort_CInv xs = [A, B, C]"
    if "CInv_less A B" "CInv_less B C" "mset xs = {#A, B, C#}"
  proof -
    from that(1,2) have "CInv_less A C" by (rule CInv_less_trans)
    with that(1,2) have "sorted_wrt CInv_less [A, B, C]" by simp
    moreover have "mset xs = mset [A, B, C]" using that(3) by simp
    ultimately show ?thesis by (rule sort_CInv_unique)
  qed
  have eq_order: "CInv_eq a b \<longleftrightarrow> \<not> CInv_less a b \<and> \<not> CInv_less b a"
    using CInv_less_linear [of a b] CInv_less_irrefl [of a]
    by (auto simp add: CInv_eq_iff)
  show ?thesis
    using CInv_less_irrefl [of a] CInv_less_trans [of a b c] CInv_less_linear [of a b]
      sort3 eq_order
    by (simp add: CInv_eq_iff [of a b, symmetric] CInv_eq_def [of a b]
        CInv_less_def [of a b] uint256_less_def)
qed

theorem CInv_less_strict_total_order_witness:
  "CInv_less \<lparr>type = 1, hash = replicate 32 0\<rparr> \<lparr>type = 1, hash = replicate 31 0 @ [1]\<rparr>
   \<and> CInv_less \<lparr>type = 1, hash = replicate 31 0 @ [1]\<rparr> \<lparr>type = 2, hash = replicate 32 0\<rparr>
   \<and> sort_CInv [\<lparr>type = 2, hash = replicate 32 0\<rparr>, \<lparr>type = 1, hash = replicate 32 0\<rparr>,
         \<lparr>type = 1, hash = replicate 31 0 @ [1]\<rparr>]
       = [\<lparr>type = 1, hash = replicate 32 0\<rparr>, \<lparr>type = 1, hash = replicate 31 0 @ [1]\<rparr>,
          \<lparr>type = 2, hash = replicate 32 0\<rparr>]"
proof -
  have ab: "CInv_less \<lparr>type = 1, hash = replicate 32 0\<rparr>
              \<lparr>type = 1, hash = replicate 31 0 @ [1]\<rparr>"
    by code_simp
  have bc: "CInv_less \<lparr>type = 1, hash = replicate 31 0 @ [1]\<rparr>
              \<lparr>type = 2, hash = replicate 32 0\<rparr>"
    by code_simp
  have perm: "mset [\<lparr>type = 2, hash = replicate 32 0\<rparr>, \<lparr>type = 1, hash = replicate 32 0\<rparr>,
                \<lparr>type = 1, hash = replicate 31 0 @ [1]\<rparr>]
              = {#\<lparr>type = 1, hash = replicate 32 0\<rparr>, \<lparr>type = 1, hash = replicate 31 0 @ [1]\<rparr>,
                  \<lparr>type = 2, hash = replicate 32 0\<rparr>#}"
    by simp
  from ab bc perm show ?thesis
    using CInv_less_strict_total_order
      [of _ _ _ "\<lparr>type = 1, hash = replicate 32 0\<rparr>" "\<lparr>type = 1, hash = replicate 31 0 @ [1]\<rparr>"
        "\<lparr>type = 2, hash = replicate 32 0\<rparr>"
        "[\<lparr>type = 2, hash = replicate 32 0\<rparr>, \<lparr>type = 1, hash = replicate 32 0\<rparr>,
          \<lparr>type = 1, hash = replicate 31 0 @ [1]\<rparr>]"]
    by blast
qed

text \<open>
  C10. Equality and ordering look at the raw 32-bit type, not at the masked kind: two
  items with the same hash whose types differ, though \<open>GetKind\<close> agrees on them (they
  differ in the three high bits only), are not equal under \<open>operator==\<close>, and exactly one
  of \<open>a < b\<close> and \<open>b < a\<close> holds, the one the raw types give.
\<close>

theorem CInv_compare_raw_type:
  assumes "hash a = hash b" and "type a \<noteq> type b" and "GetKind a = GetKind b"
  shows "\<not> CInv_eq a b
         \<and> (CInv_less a b \<longleftrightarrow> type a < type b)
         \<and> (CInv_less b a \<longleftrightarrow> type b < type a)
         \<and> (CInv_less a b \<longleftrightarrow> \<not> CInv_less b a)"
proof -
  from assms(2) have "type a < type b \<longleftrightarrow> \<not> type b < type a"
    by auto
  with assms(1,2) show ?thesis
    by (auto simp add: CInv_eq_def CInv_less_def)
qed

theorem CInv_compare_raw_type_witness:
  "GetKind \<lparr>type = 0x20000001, hash = replicate 32 7\<rparr> = GetKind \<lparr>type = 1, hash = replicate 32 7\<rparr>
   \<and> \<not> CInv_eq \<lparr>type = 0x20000001, hash = replicate 32 7\<rparr> \<lparr>type = 1, hash = replicate 32 7\<rparr>
   \<and> CInv_less \<lparr>type = 1, hash = replicate 32 7\<rparr> \<lparr>type = 0x20000001, hash = replicate 32 7\<rparr>
   \<and> \<not> CInv_less \<lparr>type = 0x20000001, hash = replicate 32 7\<rparr> \<lparr>type = 1, hash = replicate 32 7\<rparr>"
proof -
  have k: "GetKind \<lparr>type = 0x20000001, hash = replicate 32 7\<rparr>
           = GetKind \<lparr>type = 1, hash = replicate 32 7\<rparr>"
    by (simp add: GetKind_def MSG_TYPE_MASK_value)
  show ?thesis
    using k CInv_compare_raw_type
      [of "\<lparr>type = 0x20000001, hash = replicate 32 7\<rparr>" "\<lparr>type = 1, hash = replicate 32 7\<rparr>"]
    by simp
qed

section \<open>Protoconf: the field count\<close>

text \<open>
  C6. Reading a protoconf whose field count is 0 fails. With a count of 1 it reads the
  4 bytes of the receive length and nothing more, so the stream policies stay as they were
  (empty in a new object). With a count of 2 it reads both fields, and with any greater
  count it reads the same two fields, leaves the rest of the stream alone and succeeds.
\<close>

theorem CProtoconf_Unserialize_field_count:
  assumes "rcs s = Inr (n, s1)"
  shows "(n = 0 \<longrightarrow> CProtoconf_Unserialize rcs L p s = Inl InvalidDeserialization)
    \<and> (n = 1 \<longrightarrow> 4 \<le> length s1 \<longrightarrow>
          CProtoconf_Unserialize rcs L p s =
            Inr (p\<lparr>numberOfFields := 1, maxRecvPayloadLength := unser_le (take 4 s1)\<rparr>,
                 drop 4 s1))
    \<and> (2 \<le> n \<longrightarrow> 4 \<le> length s1 \<longrightarrow>
          read_limited_string rcs ((L + 1) * 10) (drop 4 s1) = Inr (str, s3) \<longrightarrow>
          CProtoconf_Unserialize rcs L p s =
            Inr (p\<lparr>numberOfFields := n, maxRecvPayloadLength := unser_le (take 4 s1),
                   streamPolicies := str\<rparr>, s3))"
proof -
  have n0: "\<not> 0 < n" if "n = 0" using that by simp
  have n1: "0 < n \<and> \<not> 1 < n" if "n = 1" using that by simp
  have n2: "0 < n \<and> 1 < n" if "2 \<le> n"
  proof -
    from that have "2 \<le> unat n" by (simp add: word_le_nat_alt)
    then show ?thesis by (simp add: word_less_nat_alt)
  qed
  show ?thesis
    using assms n0 n1 n2
    by (auto simp add: CProtoconf_Unserialize_def read_u32_def read_bytes_def Let_def
        MAX_NUM_STREAM_POLICIES_def)
qed

theorem CProtoconf_Unserialize_field_count_witness:
  "CProtoconf_Unserialize read_count_byte 64 CProtoconf_default [0] = Inl InvalidDeserialization
   \<and> CProtoconf_Unserialize read_count_byte 64 CProtoconf_default [1, 0, 0, 0x20, 0, 9] =
       Inr (\<lparr>numberOfFields = 1, maxRecvPayloadLength = 0x200000, streamPolicies = []\<rparr>, [9])
   \<and> CProtoconf_Unserialize read_count_byte 64 CProtoconf_default
         [2, 0, 0, 0x20, 0, 2, 0x41, 0x42, 9] =
       Inr (\<lparr>numberOfFields = 2, maxRecvPayloadLength = 0x200000,
             streamPolicies = [0x41, 0x42]\<rparr>, [9])
   \<and> CProtoconf_Unserialize read_count_byte 64 CProtoconf_default
         [3, 0, 0, 0x20, 0, 2, 0x41, 0x42, 9] =
       Inr (\<lparr>numberOfFields = 3, maxRecvPayloadLength = 0x200000,
             streamPolicies = [0x41, 0x42]\<rparr>, [9])"
  using
    CProtoconf_Unserialize_field_count
      [of read_count_byte "[0]" 0 "[]" 64 CProtoconf_default]
    CProtoconf_Unserialize_field_count
      [of read_count_byte "[1, 0, 0, 0x20, 0, 9]" 1 "[0, 0, 0x20, 0, 9]" 64 CProtoconf_default]
    CProtoconf_Unserialize_field_count
      [of read_count_byte "[2, 0, 0, 0x20, 0, 2, 0x41, 0x42, 9]" 2
        "[0, 0, 0x20, 0, 2, 0x41, 0x42, 9]" 64 CProtoconf_default "[0x41, 0x42]" "[9]"]
    CProtoconf_Unserialize_field_count
      [of read_count_byte "[3, 0, 0, 0x20, 0, 2, 0x41, 0x42, 9]" 3
        "[0, 0, 0x20, 0, 2, 0x41, 0x42, 9]" 64 CProtoconf_default "[0x41, 0x42]" "[9]"]
  by (simp add: read_count_byte_def CProtoconf_default_def read_limited_string_def
      read_bytes_def)

section \<open>Message header: serialization and decoding\<close>

lemma sizes [simp]:
  "MESSAGE_START_SIZE = 4" "COMMAND_SIZE = 12" "CHECKSUM_SIZE = 4"
  "BASIC_HEADER_SIZE = 24" "EXTENDED_HEADER_SIZE = 44"
  by (simp_all add: MESSAGE_START_SIZE_def COMMAND_SIZE_def CHECKSUM_SIZE_def
      BASIC_HEADER_SIZE_def EXTENDED_HEADER_SIZE_def BASIC_MESSAGE_SIZE_SIZE_def
      EXTENDED_MESSAGE_SIZE_SIZE_def)

lemma read_bytes_append [simp]: "length a = n \<Longrightarrow> read_bytes n (a @ s) = Inr (a, s)"
  by (simp add: read_bytes_def)

lemma read_u32_append [simp]: "read_u32 (ser_le 4 w @ s) = Inr (w, s)"
  by (simp add: read_u32_def)

lemma read_u64_append [simp]: "read_u64 (ser_le 8 w @ s) = Inr (w, s)"
  by (simp add: read_u64_def)

lemma length_basic_bytes: "hdr_wf g \<Longrightarrow> length (basic_bytes g) = 24"
  by (simp add: basic_bytes_def hdr_wf_def)

lemma Serialize_basic: "\<not> IsExtended g \<Longrightarrow> CMessageHeader_Serialize g = basic_bytes g"
  by (simp add: CMessageHeader_Serialize_def basic_bytes_def)

lemma Serialize_extended:
  "extendedFields g = Some e \<Longrightarrow>
   CMessageHeader_Serialize g = basic_bytes g @ ext_pchCommand e @ ser_le 8 (ext_nPayloadLength e)"
  by (simp add: CMessageHeader_Serialize_def basic_bytes_def IsExtended_def
      CExtendedMessageHeader_Serialize_def)

lemma Unserialize_basic_bytes:
  assumes "hdr_wf g" "\<not> IsExtended h"
  shows "CMessageHeader_Unserialize h (basic_bytes g @ s) =
     Inr (h\<lparr>pchMessageStart := pchMessageStart g, pchCommand := pchCommand g,
            nPayloadLength := nPayloadLength g, pchChecksum := pchChecksum g\<rparr>, s)"
  using assms
  by (simp add: CMessageHeader_Unserialize_def basic_bytes_def hdr_wf_def IsExtended_def)

lemma Unserialize_ext_bytes:
  assumes "length c = 12"
  shows "CExtendedMessageHeader_Unserialize e0 (c @ ser_le 8 l @ s) =
     Inr (e0\<lparr>ext_pchCommand := c, ext_nPayloadLength := l\<rparr>, s)"
  using assms by (simp add: CExtendedMessageHeader_Unserialize_def)

lemma Unserialize_init:
  assumes wf: "hdr_wf g"
  shows "CMessageHeader_Unserialize (CMessageHeader_init m0) (basic_bytes g) =
     Inr (g\<lparr>extendedFields := None, complete := False\<rparr>, [])"
proof -
  have fresh: "\<not> IsExtended (CMessageHeader_init m0)"
    by (simp add: IsExtended_def CMessageHeader_init_def)
  have "(CMessageHeader_init m0)\<lparr>pchMessageStart := pchMessageStart g, pchCommand := pchCommand g,
            nPayloadLength := nPayloadLength g, pchChecksum := pchChecksum g\<rparr>
        = g\<lparr>extendedFields := None, complete := False\<rparr>"
    by (cases g) (simp add: CMessageHeader_init_def)
  with Unserialize_basic_bytes [OF wf fresh, of "[]"] show ?thesis by simp
qed

lemma Read_basic_header:
  assumes wf: "hdr_wf g" and ne: "extendedFields g = None" and c: "complete g"
    and len: "nPayloadLength g \<noteq> 0xFFFFFFFF"
  shows "CMessageHeader_Read (CMessageHeader_init m0) (CMessageHeader_Serialize g @ rest) []
         = Inr (24, g, [])"
proof -
  have ser: "CMessageHeader_Serialize g = basic_bytes g"
    using ne by (simp add: Serialize_basic IsExtended_def)
  have l24: "length (basic_bytes g) = 24" using wf by (rule length_basic_bytes)
  have g: "g\<lparr>extendedFields := None, complete := True\<rparr> = g"
    using ne c by (cases g) simp
  have rb: "read_basic (CMessageHeader_init m0) (basic_bytes g @ rest) [] = Inr (24, g, basic_bytes g)"
    using l24 len
    by (simp add: read_basic_def absorb_def Unserialize_init [OF wf] Let_def g)
  have re: "read_extended g pch b = Inr (0, g, b)" for pch b
    using c by (simp add: read_extended_def)
  show ?thesis
    using c by (simp add: CMessageHeader_Read_def ser rb re)
qed

lemma Read_extended_header:
  assumes wf: "hdr_wf g" and ex: "extendedFields g = Some e" and c: "complete g"
    and len: "nPayloadLength g = 0xFFFFFFFF"
  shows "CMessageHeader_Read (CMessageHeader_init m0) (CMessageHeader_Serialize g @ rest) []
         = Inr (44, g, [])"
proof -
  let ?ext = "ext_pchCommand e @ ser_le 8 (ext_nPayloadLength e)"
  let ?h1 = "g\<lparr>extendedFields := Some CExtendedMessageHeader_default, complete := False\<rparr>"
  have ser: "CMessageHeader_Serialize g = basic_bytes g @ ?ext"
    using ex by (rule Serialize_extended)
  have l24: "length (basic_bytes g) = 24" using wf by (rule length_basic_bytes)
  have l12: "length (ext_pchCommand e) = 12" using wf ex by (simp add: hdr_wf_def)
  have rb: "read_basic (CMessageHeader_init m0) (basic_bytes g @ r) []
            = Inr (24, ?h1, basic_bytes g)" for r
    using l24 len
    by (simp add: read_basic_def absorb_def Unserialize_init [OF wf] Let_def)
  have "CExtendedMessageHeader_default\<lparr>ext_pchCommand := ext_pchCommand e,
           ext_nPayloadLength := ext_nPayloadLength e\<rparr> = e"
    by (cases e) (simp add: CExtendedMessageHeader_default_def)
  then have ue: "CExtendedMessageHeader_Unserialize CExtendedMessageHeader_default ?ext = Inr (e, [])"
    using Unserialize_ext_bytes [OF l12, of CExtendedMessageHeader_default "ext_nPayloadLength e" "[]"]
    by simp
  have g: "g\<lparr>extendedFields := Some e, complete := True\<rparr> = g"
    using ex c by (cases g) simp
  have re: "read_extended ?h1 (ext_pchCommand e @ ser_le 8 (ext_nPayloadLength e) @ rest)
              (basic_bytes g) = Inr (20, g, basic_bytes g @ ?ext)"
    using l24 l12
    by (simp add: read_extended_def absorb_def IsExtended_def Let_def ue g)
  show ?thesis
    using c l24 by (simp add: CMessageHeader_Read_def ser rb re)
qed

section \<open>Reading a header in pieces\<close>

lemma shift_simps [simp]: "shift k (Inl e) = Inl e" "shift k (Inr (n, x)) = Inr (k + n, x)"
  by (simp_all add: shift_def)

lemma absorb_full:
  "T \<le> length buff + length a \<Longrightarrow> absorb T (a @ b) buff = absorb T a buff"
  by (auto simp add: absorb_def Let_def min_def)

lemma absorb_short:
  "length buff + length a < T \<Longrightarrow> absorb T a buff = (length a, buff @ a)"
  by (auto simp add: absorb_def Let_def min_def)

lemma absorb_append:
  "length buff + length a < T \<Longrightarrow>
   absorb T (a @ b) buff = (length a + fst (absorb T b (buff @ a)), snd (absorb T b (buff @ a)))"
  by (auto simp add: absorb_def Let_def min_def)

lemma absorb_le: "fst (absorb T a buff) \<le> length a"
  by (simp add: absorb_def Let_def)

lemma absorb_length:
  "length (snd (absorb T a buff)) = length buff + min (T - length buff) (length a)"
  by (auto simp add: absorb_def Let_def min_def)

lemma absorb_Nil: "absorb T [] buff = (0, buff)"
  by (simp add: absorb_def)

lemma read_basic_skip: "24 \<le> length buff \<Longrightarrow> read_basic h X buff = Inr (0, h, buff)"
  by (simp add: read_basic_def)

lemma read_basic_short:
  "length buff + length a < 24 \<Longrightarrow> read_basic h a buff = Inr (length a, h, buff @ a)"
  by (simp add: read_basic_def absorb_short)

lemma read_basic_full:
  "length buff < 24 \<Longrightarrow> 24 \<le> length buff + length a \<Longrightarrow>
   read_basic h (a @ b) buff = read_basic h a buff"
  by (simp add: read_basic_def absorb_full)

lemma read_basic_full_res:
  assumes "length buff < 24" "24 \<le> length buff + length a"
    and "read_basic h a buff = Inr (n, h', b')"
  shows "n \<le> length a \<and> length b' = 24 \<and> (complete h' \<or> IsExtended h')"
proof -
  obtain k b where kb: "absorb 24 a buff = (k, b)" by (cases "absorb 24 a buff")
  have "k \<le> length a" using absorb_le [of 24 a buff] kb by simp
  moreover have "length b = 24" using absorb_length [of 24 a buff] kb assms(1,2) by simp
  ultimately show ?thesis
    using assms(1,3) kb
    by (auto simp add: read_basic_def IsExtended_def split: sum.splits if_splits)
qed

lemma read_basic_append:
  assumes "length buff + length a < 24"
  shows "read_basic h (a @ b) buff = shift (length a) (read_basic h b (buff @ a))"
proof -
  obtain k c where kc: "absorb 24 b (buff @ a) = (k, c)" by (cases "absorb 24 b (buff @ a)")
  then have "absorb 24 (a @ b) buff = (length a + k, c)"
    using absorb_append [OF assms, of b] by simp
  with kc assms show ?thesis
    by (simp add: read_basic_def split: sum.splits)
qed

lemma read_extended_skip:
  "\<not> (IsExtended h \<and> \<not> complete h \<and> length buff < 44) \<Longrightarrow>
   read_extended h X buff = Inr (0, h, buff)"
  by (auto simp add: read_extended_def)

lemma read_extended_Nil: "read_extended h [] buff = Inr (0, h, buff)"
  by (simp add: read_extended_def absorb_Nil)

lemma read_extended_short:
  "IsExtended h \<Longrightarrow> \<not> complete h \<Longrightarrow> length buff + length a < 44 \<Longrightarrow>
   read_extended h a buff = Inr (length a, h, buff @ a)"
  by (simp add: read_extended_def absorb_short)

lemma read_extended_full:
  "44 \<le> length buff + length a \<Longrightarrow>
   read_extended h (a @ b) buff = read_extended h a buff"
  by (simp add: read_extended_def absorb_full)

lemma read_extended_full_res:
  assumes "IsExtended h" "\<not> complete h" "length buff < 44" "44 \<le> length buff + length a"
    and "read_extended h a buff = Inr (n, h', b')"
  shows "n \<le> length a \<and> complete h'"
proof -
  obtain k b where kb: "absorb 44 a buff = (k, b)" by (cases "absorb 44 a buff")
  have "k \<le> length a" using absorb_le [of 44 a buff] kb by simp
  moreover have "length b = 44" using absorb_length [of 44 a buff] kb assms(3,4) by simp
  ultimately show ?thesis
    using assms(1,2,3,5) kb
    by (auto simp add: read_extended_def split: sum.splits if_splits)
qed

lemma read_extended_append:
  assumes "IsExtended h" "\<not> complete h" "length buff + length a < 44"
  shows "read_extended h (a @ b) buff = shift (length a) (read_extended h b (buff @ a))"
proof -
  obtain k c where kc: "absorb 44 b (buff @ a) = (k, c)" by (cases "absorb 44 b (buff @ a)")
  then have "absorb 44 (a @ b) buff = (length a + k, c)"
    using absorb_append [OF assms(3), of b] by simp
  with kc assms show ?thesis
    by (simp add: read_extended_def split: sum.splits)
qed

lemma finish_ext_simps [simp]:
  "finish_ext n1 (Inl e) = Inl e"
  "finish_ext n1 (Inr (n2, h2, b2)) = Inr (n1 + n2, h2, if complete h2 then [] else b2)"
  by (simp_all add: finish_ext_def)

lemma continue_hdr_simps [simp]:
  "continue_hdr X (Inl e) = Inl e"
  "continue_hdr X (Inr (n, h', b')) =
     (if complete h' then Inr (n, h', b') else shift n (CMessageHeader_Read h' (drop n X) b'))"
  by (simp_all add: continue_hdr_def)

lemma shift_0 [simp]: "shift 0 r = r"
  by (cases r) auto

lemma finish_ext_shift: "finish_ext n (shift k r) = finish_ext (n + k) r"
  by (cases r) auto

lemma shift_finish_ext: "shift k (finish_ext n r) = finish_ext (k + n) r"
  by (cases r) auto

lemma Read_alt:
  "CMessageHeader_Read h pch buff =
     (case read_basic h pch buff of
        Inl e \<Rightarrow> Inl e
      | Inr (n1, h1, b1) \<Rightarrow> finish_ext n1 (read_extended h1 (drop n1 pch) b1))"
  by (simp add: CMessageHeader_Read_def finish_ext_def split: sum.splits)

lemma Read_skip_basic:
  "24 \<le> length buff \<Longrightarrow> CMessageHeader_Read h X buff = finish_ext 0 (read_extended h X buff)"
  by (simp add: Read_alt read_basic_skip)

lemma ext_part_append:
  assumes nc: "\<not> complete h1" and l: "24 \<le> length b1" and p: "length p = n1"
  shows "finish_ext n1 (read_extended h1 (a @ b) b1) =
         continue_hdr (p @ a @ b) (finish_ext n1 (read_extended h1 a b1))"
proof (cases "IsExtended h1 \<and> length b1 < 44")
  case False
  with nc have sk: "read_extended h1 X b1 = Inr (0, h1, b1)" for X
    by (intro read_extended_skip) auto
  show ?thesis
    using nc l p by (simp add: sk Read_skip_basic)
next
  case True
  then have act: "IsExtended h1" "length b1 < 44" by auto
  show ?thesis
  proof (cases "44 \<le> length b1 + length a")
    case True
    have same: "read_extended h1 (a @ b) b1 = read_extended h1 a b1"
      using True by (rule read_extended_full)
    show ?thesis
    proof (cases "read_extended h1 a b1")
      case (Inl e)
      then show ?thesis by (simp add: same)
    next
      case (Inr t)
      obtain n2 h2 b2 where t: "t = (n2, h2, b2)" by (cases t)
      with Inr have "complete h2"
        using read_extended_full_res [OF act(1) nc act(2) True] by blast
      with Inr t show ?thesis by (simp add: same)
    qed
  next
    case False
    then have sh: "length b1 + length a < 44" by simp
    have ra: "read_extended h1 a b1 = Inr (length a, h1, b1 @ a)"
      using act(1) nc sh by (rule read_extended_short)
    have rab: "read_extended h1 (a @ b) b1 = shift (length a) (read_extended h1 b (b1 @ a))"
      using act(1) nc sh by (rule read_extended_append)
    show ?thesis
      using nc l p
      by (simp add: ra rab Read_skip_basic finish_ext_shift shift_finish_ext)
  qed
qed

lemma CMessageHeader_Read_append:
  assumes nc: "\<not> complete h"
  shows "CMessageHeader_Read h (a @ b) buff = continue_hdr (a @ b) (CMessageHeader_Read h a buff)"
proof (cases "24 \<le> length buff")
  case True
  show ?thesis
    using ext_part_append [OF nc True, of "[]" 0 a b]
    by (simp add: Read_skip_basic [OF True])
next
  case False
  then have lb: "length buff < 24" by simp
  show ?thesis
  proof (cases "24 \<le> length buff + length a")
    case False
    then have sh: "length buff + length a < 24" by simp
    have ra: "CMessageHeader_Read h a buff = Inr (length a, h, buff @ a)"
      using nc by (simp add: Read_alt read_basic_short [OF sh] read_extended_Nil)
    have "CMessageHeader_Read h (a @ b) buff = shift (length a) (CMessageHeader_Read h b (buff @ a))"
    proof (cases "read_basic h b (buff @ a)")
      case (Inl e)
      then show ?thesis by (simp add: Read_alt read_basic_append [OF sh])
    next
      case (Inr t)
      obtain n1 h1 b1 where t: "t = (n1, h1, b1)" by (cases t)
      with Inr show ?thesis
        by (simp add: Read_alt read_basic_append [OF sh] shift_finish_ext)
    qed
    with nc show ?thesis by (simp add: ra)
  next
    case True
    have same: "read_basic h (a @ b) buff = read_basic h a buff"
      using lb True by (rule read_basic_full)
    show ?thesis
    proof (cases "read_basic h a buff")
      case (Inl e)
      then show ?thesis by (simp add: Read_alt same)
    next
      case (Inr t)
      obtain n1 h1 b1 where t: "t = (n1, h1, b1)" by (cases t)
      with Inr have rb: "read_basic h a buff = Inr (n1, h1, b1)" by simp
      from read_basic_full_res [OF lb True rb]
      have n1: "n1 \<le> length a" and l1: "length b1 = 24" and ce: "complete h1 \<or> IsExtended h1"
        by auto
      have dr: "drop n1 (a @ b) = drop n1 a @ b" using n1 by simp
      have La: "CMessageHeader_Read h a buff = finish_ext n1 (read_extended h1 (drop n1 a) b1)"
        by (simp add: Read_alt rb)
      have Lab: "CMessageHeader_Read h (a @ b) buff
                 = finish_ext n1 (read_extended h1 (drop n1 a @ b) b1)"
        using n1 by (simp add: Read_alt same rb)
      show ?thesis
      proof (cases "complete h1")
        case True
        then have "read_extended h1 X b1 = Inr (0, h1, b1)" for X
          by (intro read_extended_skip) simp
        with True show ?thesis by (simp add: La Lab)
      next
        case False
        have "length (take n1 a) = n1" using n1 by simp
        then have e: "finish_ext n1 (read_extended h1 (drop n1 a @ b) b1) =
            continue_hdr (take n1 a @ drop n1 a @ b)
              (finish_ext n1 (read_extended h1 (drop n1 a) b1))"
          using ext_part_append [OF False _, of b1 "take n1 a" n1 "drop n1 a" b] l1
          by simp
        have "take n1 a @ drop n1 a @ b = a @ b"
          by (simp flip: append_assoc)
        with e have "finish_ext n1 (read_extended h1 (drop n1 a @ b) b1) =
            continue_hdr (a @ b) (finish_ext n1 (read_extended h1 (drop n1 a) b1))"
          by (simp only:)
        then show ?thesis by (simp only: La Lab)
      qed
    qed
  qed
qed

section \<open>Reading a message in pieces\<close>

lemma hdr_Complete_simp [simp]: "hdr_Complete h = complete h"
  by (simp add: hdr_Complete_def)

lemma Read_payload:
  "complete (hdr m) \<Longrightarrow>
   CNetMessage_Read config m pch =
     Inr (min (remaining m) (length pch),
          m\<lparr>hasher := hasher m @ take (min (remaining m) (length pch)) pch,
            dataBuff := dataBuff m @ take (min (remaining m) (length pch)) pch\<rparr>)"
  by (simp add: CNetMessage_Read_def remaining_def Let_def)

lemma unat_sub_of_nat:
  assumes "n \<le> unat (x :: 64 word)"
  shows "unat (x - of_nat n) = unat x - n"
proof -
  have u: "unat (of_nat n :: 64 word) = n"
    using assms by (rule le_unat_uoi)
  then have "(of_nat n :: 64 word) \<le> x" using assms by (simp add: word_le_nat_alt)
  then show ?thesis using u by (simp add: unat_sub)
qed

lemma remaining_after:
  assumes "length bs \<le> remaining m"
  shows "remaining (m\<lparr>hasher := hs, dataBuff := dataBuff m @ bs\<rparr>) = remaining m - length bs"
proof -
  have "length bs \<le> unat (GetPayloadLength (hdr m) - of_nat (length (dataBuff m)))"
    using assms by (simp add: remaining_def)
  from unat_sub_of_nat [OF this] show ?thesis
    by (simp add: remaining_def algebra_simps)
qed

lemma remaining_Complete:
  assumes "Complete m"
  shows "remaining m = 0"
proof -
  from assms have "unat (GetPayloadLength (hdr m)) = length (dataBuff m)"
    by (auto simp add: Complete_def split: if_splits)
  then have "of_nat (length (dataBuff m)) = GetPayloadLength (hdr m)"
    using of_nat_unat [of "GetPayloadLength (hdr m)", where 'a = "64 word"] by simp
  then show ?thesis by (simp add: remaining_def)
qed

lemma Complete_hdr: "Complete m \<Longrightarrow> complete (hdr m)"
  by (auto simp add: Complete_def split: if_splits)

lemma continue_msg_simps [simp]:
  "continue_msg config m X (Inl e) = Inl e"
  "continue_msg config m X (Inr (n, m')) =
     (if \<not> complete (hdr m) \<and> complete (hdr m') then Inr (n, m')
      else shift n (CNetMessage_Read config m' (drop n X)))"
  by (simp_all add: continue_msg_def)

lemma Read_payload_append:
  assumes c: "complete (hdr m)"
  shows "CNetMessage_Read config m (a @ b) = continue_msg config m (a @ b) (CNetMessage_Read config m a)"
proof (cases "remaining m \<le> length a")
  case True
  let ?m' = "m\<lparr>hasher := hasher m @ take (remaining m) a,
                 dataBuff := dataBuff m @ take (remaining m) a\<rparr>"
  have ra: "CNetMessage_Read config m a = Inr (remaining m, ?m')"
    using True by (simp add: Read_payload [OF c] min_def)
  have rab: "CNetMessage_Read config m (a @ b) = Inr (remaining m, ?m')"
    using True by (simp add: Read_payload [OF c] min_def)
  have "length (take (remaining m) a) \<le> remaining m" by simp
  from remaining_after [OF this] have r0: "remaining ?m' = 0"
    using True by simp
  have c': "complete (hdr ?m')" using c by simp
  have "CNetMessage_Read config ?m' X = Inr (0, ?m')" for X
    by (simp add: Read_payload [OF c'] r0)
  then show ?thesis using c by (simp add: ra rab)
next
  case False
  then have lt: "length a < remaining m" by simp
  let ?m' = "m\<lparr>hasher := hasher m @ a, dataBuff := dataBuff m @ a\<rparr>"
  have ra: "CNetMessage_Read config m a = Inr (length a, ?m')"
    using lt by (simp add: Read_payload [OF c] min_def)
  have "length a \<le> remaining m" using lt by simp
  from remaining_after [OF this] have r': "remaining ?m' = remaining m - length a"
    by simp
  have c': "complete (hdr ?m')" using c by simp
  have rb: "CNetMessage_Read config ?m' b =
     Inr (min (remaining m - length a) (length b),
          m\<lparr>hasher := hasher m @ a @ take (min (remaining m - length a) (length b)) b,
            dataBuff := dataBuff m @ a @ take (min (remaining m - length a) (length b)) b\<rparr>)"
    by (simp add: Read_payload [OF c'] r')
  have k: "min (remaining m) (length a + length b)
           = length a + min (remaining m - length a) (length b)"
    using lt by (auto simp add: min_def)
  have rab: "CNetMessage_Read config m (a @ b) =
     Inr (length a + min (remaining m - length a) (length b),
          m\<lparr>hasher := hasher m @ a @ take (min (remaining m - length a) (length b)) b,
            dataBuff := dataBuff m @ a @ take (min (remaining m - length a) (length b)) b\<rparr>)"
    by (simp add: Read_payload [OF c] k)
  show ?thesis using c by (simp add: ra rab rb)
qed

lemma check_hdr_simps [simp]:
  "check_hdr config m (Inl e) = Inl (IosFailure e)"
  "check_hdr config m (Inr (n, h, buff)) =
     (if complete h \<and> \<not> IsValid config h
      then Inl (BanPeer InvalidHeader (m\<lparr>hdr := h, dataBuff := buff\<rparr>))
      else if complete h \<and> IsOversized config h
      then Inl (BanPeer Oversized (m\<lparr>hdr := h, dataBuff := buff\<rparr>))
      else Inr (n, m\<lparr>hdr := h, dataBuff := buff\<rparr>))"
  by (simp_all add: check_hdr_def)

lemma Read_header:
  "\<not> complete (hdr m) \<Longrightarrow>
   CNetMessage_Read config m pch = check_hdr config m (CMessageHeader_Read (hdr m) pch (dataBuff m))"
  by (auto simp add: CNetMessage_Read_def check_hdr_def split: sum.splits)

lemma check_hdr_shift: "check_hdr config m (shift k r) = shift k (check_hdr config m r)"
  by (cases r) auto

lemma check_hdr_update:
  "check_hdr config (m\<lparr>hdr := h', dataBuff := b'\<rparr>) r = check_hdr config m r"
  by (cases r) auto

lemma Read_header_append:
  assumes nc: "\<not> complete (hdr m)"
  shows "CNetMessage_Read config m (a @ b) = continue_msg config m (a @ b) (CNetMessage_Read config m a)"
proof (cases "CMessageHeader_Read (hdr m) a (dataBuff m)")
  case (Inl e)
  then show ?thesis
    by (simp add: Read_header [OF nc] CMessageHeader_Read_append [OF nc])
next
  case (Inr t)
  obtain n h' b' where t: "t = (n, h', b')" by (cases t)
  with Inr have ha: "CMessageHeader_Read (hdr m) a (dataBuff m) = Inr (n, h', b')" by simp
  show ?thesis
  proof (cases "complete h'")
    case True
    then have "CMessageHeader_Read (hdr m) (a @ b) (dataBuff m) = Inr (n, h', b')"
      by (simp add: CMessageHeader_Read_append [OF nc] ha)
    with True nc show ?thesis
      by (simp add: Read_header [OF nc] ha)
  next
    case False
    let ?m' = "m\<lparr>hdr := h', dataBuff := b'\<rparr>"
    have nc': "\<not> complete (hdr ?m')" using False by simp
    have "CMessageHeader_Read (hdr m) (a @ b) (dataBuff m)
          = shift n (CMessageHeader_Read h' (drop n (a @ b)) b')"
      using False by (simp add: CMessageHeader_Read_append [OF nc] ha)
    then have "CNetMessage_Read config m (a @ b)
          = shift n (check_hdr config m (CMessageHeader_Read h' (drop n (a @ b)) b'))"
      by (simp add: Read_header [OF nc] check_hdr_shift)
    moreover have "CNetMessage_Read config ?m' (drop n (a @ b))
          = check_hdr config m (CMessageHeader_Read h' (drop n (a @ b)) b')"
      by (simp add: Read_header [OF nc'] check_hdr_update)
    moreover have "CNetMessage_Read config m a = Inr (n, ?m')"
      using False by (simp add: Read_header [OF nc] ha)
    ultimately show ?thesis using False by simp
  qed
qed

lemma CNetMessage_Read_append:
  "CNetMessage_Read config m (a @ b) = continue_msg config m (a @ b) (CNetMessage_Read config m a)"
  by (cases "complete (hdr m)") (simp_all add: Read_payload_append Read_header_append)

lemma read_basic_le: "read_basic h a buff = Inr (n, h', b') \<Longrightarrow> n \<le> length a"
  using absorb_le [of 24 a buff]
  by (auto simp add: read_basic_def split: if_splits prod.splits sum.splits)

lemma read_extended_le: "read_extended h a buff = Inr (n, h', b') \<Longrightarrow> n \<le> length a"
  using absorb_le [of 44 a buff]
  by (auto simp add: read_extended_def split: if_splits prod.splits sum.splits)

lemma absorb_pos: "length buff < T \<Longrightarrow> a \<noteq> [] \<Longrightarrow> 0 < fst (absorb T a buff)"
  by (simp add: absorb_def Let_def)

lemma read_basic_zero:
  assumes "read_basic h a buff = Inr (0, h', b')" "a \<noteq> []"
  shows "24 \<le> length buff"
proof (rule ccontr)
  assume "\<not> 24 \<le> length buff"
  then have l: "length buff < 24" by simp
  from absorb_pos [OF l assms(2)] assms(1) l show False
    by (auto simp add: read_basic_def split: prod.splits sum.splits if_splits)
qed

lemma read_extended_zero:
  assumes "read_extended h a buff = Inr (0, h', b')" "a \<noteq> []"
  shows "\<not> (IsExtended h \<and> \<not> complete h \<and> length buff < 44)"
proof
  assume act: "IsExtended h \<and> \<not> complete h \<and> length buff < 44"
  then have l: "length buff < 44" by simp
  from absorb_pos [OF l assms(2)] assms(1) act show False
    by (auto simp add: read_extended_def split: prod.splits sum.splits if_splits)
qed

lemma CMessageHeader_Read_le:
  assumes "CMessageHeader_Read h a buff = Inr (n, h', b')"
  shows "n \<le> length a"
proof -
  from assms obtain n1 h1 b1 n2 b2 where
    rb: "read_basic h a buff = Inr (n1, h1, b1)" and
    re: "read_extended h1 (drop n1 a) b1 = Inr (n2, h', b2)" and n: "n = n1 + n2"
    by (auto simp add: CMessageHeader_Read_def split: sum.splits)
  from read_basic_le [OF rb] read_extended_le [OF re] n show ?thesis by simp
qed

lemma CMessageHeader_Read_stuck:
  assumes "CMessageHeader_Read h a buff = Inr (0, h', b')" "a \<noteq> []" "\<not> complete h"
  shows "CMessageHeader_Read h X buff = Inr (0, h, buff)"
proof -
  from assms(1) obtain h1 b1 b2 where
    rb: "read_basic h a buff = Inr (0, h1, b1)" and
    re: "read_extended h1 (drop 0 a) b1 = Inr (0, h', b2)"
    by (auto simp add: CMessageHeader_Read_def split: sum.splits)
  from read_basic_zero [OF rb assms(2)] have l: "24 \<le> length buff" .
  with rb have "h1 = h" "b1 = buff" by (simp_all add: read_basic_skip)
  with re have "read_extended h a buff = Inr (0, h', b2)" by simp
  from read_extended_zero [OF this assms(2)]
  have "read_extended h X buff = Inr (0, h, buff)" by (rule read_extended_skip)
  with l assms(3) show ?thesis by (simp add: Read_skip_basic)
qed

lemma CMessageHeader_Read_Nil:
  "\<not> complete h \<Longrightarrow> CMessageHeader_Read h [] buff = Inr (0, h, buff)"
  by (simp add: Read_alt read_basic_def absorb_Nil read_extended_Nil)

lemma update_same [simp]: "m\<lparr>hdr := hdr m, dataBuff := dataBuff m\<rparr> = (m :: CNetMessage)"
  by (cases m) simp

lemma update_same' [simp]: "m\<lparr>hasher := hasher m, dataBuff := dataBuff m\<rparr> = (m :: CNetMessage)"
  by (cases m) simp

lemma Read_Nil: "CNetMessage_Read config m [] = Inr (0, m)"
proof (cases "complete (hdr m)")
  case True
  then show ?thesis by (simp add: Read_payload)
next
  case False
  then show ?thesis by (simp add: Read_header CMessageHeader_Read_Nil)
qed

lemma Read_Complete: "Complete m \<Longrightarrow> CNetMessage_Read config m X = Inr (0, m)"
  by (simp add: Read_payload Complete_hdr remaining_Complete)

lemma Read_le:
  assumes "CNetMessage_Read config m X = Inr (n, m')"
  shows "n \<le> length X"
proof (cases "complete (hdr m)")
  case True
  with assms show ?thesis by (auto simp add: Read_payload)
next
  case False
  with assms obtain h' b' where "CMessageHeader_Read (hdr m) X (dataBuff m) = Inr (n, h', b')"
    by (auto simp add: Read_header check_hdr_def split: sum.splits if_splits)
  then show ?thesis by (rule CMessageHeader_Read_le)
qed

lemma Read_stuck:
  assumes "CNetMessage_Read config m a = Inr (0, m')" "a \<noteq> []"
  shows "CNetMessage_Read config m X = Inr (0, m)"
proof (cases "complete (hdr m)")
  case True
  with assms have "remaining m = 0" by (auto simp add: Read_payload min_def split: if_splits)
  with True show ?thesis by (simp add: Read_payload)
next
  case False
  with assms(1) obtain h' b' where "CMessageHeader_Read (hdr m) a (dataBuff m) = Inr (0, h', b')"
    by (auto simp add: Read_header check_hdr_def split: sum.splits if_splits)
  from CMessageHeader_Read_stuck [OF this assms(2) False]
  show ?thesis using False by (simp add: Read_header)
qed

lemma Read_zero:
  assumes "CNetMessage_Read config m X = Inr (0, m')"
  shows "m' = m"
proof (cases "X = []")
  case True
  with assms show ?thesis by (simp add: Read_Nil)
next
  case False
  from Read_stuck [OF assms False, of X] assms show ?thesis by simp
qed

lemma feed_unfold:
  "feed_all config m Y =
     (case CNetMessage_Read config m Y of
        Inl e \<Rightarrow> Inl e
      | Inr (k, m') \<Rightarrow> feed_all config m' (drop k Y))"
proof (cases "Y = [] \<or> Complete m")
  case True
  then have "CNetMessage_Read config m Y = Inr (0, m)"
    by (auto simp add: Read_Nil Read_Complete)
  then show ?thesis by simp
next
  case False
  show ?thesis
  proof (cases "CNetMessage_Read config m Y")
    case (Inl e)
    with False show ?thesis by (subst feed_all.simps) simp
  next
    case (Inr t)
    obtain k m' where t: "t = (k, m')" by (cases t)
    show ?thesis
    proof (cases "k = 0")
      case True
      with Inr t have "m' = m" by (auto dest: Read_zero)
      with Inr t True show ?thesis by simp
    next
      case nz: False
      with False Inr t show ?thesis by (subst feed_all.simps) simp
    qed
  qed
qed

lemma feed_stop: "Y = [] \<or> Complete m \<Longrightarrow> feed_all config m Y = Inr m"
  by (subst feed_all.simps) simp

lemma feed_append:
  "feed_all config m (a @ b) =
     (case feed_all config m a of Inl e \<Rightarrow> Inl e | Inr m' \<Rightarrow> feed_all config m' b)"
proof (induction "length a" arbitrary: a m rule: less_induct)
  case less
  show ?case
  proof (cases "a = [] \<or> Complete m")
    case True
    then show ?thesis by (auto simp add: feed_stop)
  next
    case False
    then have ne: "a \<noteq> []" and nC: "\<not> Complete m" by auto
    show ?thesis
    proof (cases "CNetMessage_Read config m a")
      case (Inl e)
      then have "CNetMessage_Read config m (a @ b) = Inl e"
        by (simp add: CNetMessage_Read_append)
      with Inl show ?thesis
        by (simp add: feed_unfold [of config m a] feed_unfold [of config m "a @ b"])
    next
      case (Inr t)
      obtain n m' where t: "t = (n, m')" by (cases t)
      with Inr have ra: "CNetMessage_Read config m a = Inr (n, m')" by simp
      show ?thesis
      proof (cases "n = 0")
        case True
        with ra have st: "CNetMessage_Read config m X = Inr (0, m)" for X
          using Read_stuck [OF _ ne] by blast
        have "feed_all config m X = Inr m" for X
          by (subst feed_all.simps) (simp add: st)
        then show ?thesis by simp
      next
        case nz: False
        from Read_le [OF ra] have n: "n \<le> length a" .
        have fa: "feed_all config m a = feed_all config m' (drop n a)"
          by (simp add: feed_unfold [of config m a] ra)
        have "length (drop n a) < length a" using nz ne n by simp
        from less [OF this]
        have IH: "feed_all config m' (drop n a @ b) =
           (case feed_all config m' (drop n a) of Inl e \<Rightarrow> Inl e | Inr m'' \<Rightarrow> feed_all config m'' b)" .
        have "feed_all config m (a @ b) = feed_all config m' (drop n a @ b)"
        proof (cases "\<not> complete (hdr m) \<and> complete (hdr m')")
          case True
          then have "CNetMessage_Read config m (a @ b) = Inr (n, m')"
            by (simp add: CNetMessage_Read_append ra)
          then show ?thesis using n by (simp add: feed_unfold [of config m "a @ b"])
        next
          case False
          then have rab: "CNetMessage_Read config m (a @ b)
                      = shift n (CNetMessage_Read config m' (drop n a @ b))"
            using n by (auto simp add: CNetMessage_Read_append ra)
          show ?thesis
          proof (cases "CNetMessage_Read config m' (drop n a @ b)")
            case (Inl e)
            then show ?thesis
              by (simp add: feed_unfold [of config m "a @ b"] rab
                  feed_unfold [of config m' "drop n a @ b"])
          next
            case (Inr u)
            obtain k m'' where u: "u = (k, m'')" by (cases u)
            have "drop (n + k) (a @ b) = drop k (drop n a @ b)"
              using n by (simp add: add.commute)
            with Inr u show ?thesis
              by (simp add: feed_unfold [of config m "a @ b"] rab
                  feed_unfold [of config m' "drop n a @ b"])
          qed
        qed
        with IH fa show ?thesis by simp
      qed
    qed
  qed
qed

lemma feed_chunks_concat: "feed_chunks config m chunks = feed_all config m (concat chunks)"
proof (induction chunks arbitrary: m)
  case Nil
  show ?case by (simp add: feed_stop)
next
  case (Cons c cs)
  show ?case
    by (simp add: feed_append Cons.IH split: sum.splits)
qed

section \<open>Encoded headers and messages\<close>

lemma wire_header_wf: "wire_header g \<Longrightarrow> hdr_wf g"
  by (auto simp add: wire_header_def hdr_wf_def split: option.splits)

lemma length_Serialize:
  "wire_header g \<Longrightarrow> length (CMessageHeader_Serialize g) = unat (GetLength g)"
  by (auto simp add: wire_header_def CMessageHeader_Serialize_def GetLength_def IsExtended_def
      CExtendedMessageHeader_Serialize_def split: option.splits)

lemma Read_wire_header:
  assumes "wire_header g"
  shows "CMessageHeader_Read (CMessageHeader_init m0) (CMessageHeader_Serialize g @ rest) []
         = Inr (unat (GetLength g), g, [])"
proof (cases "extendedFields g")
  case None
  with assms have "nPayloadLength g \<noteq> 0xFFFFFFFF" "complete g"
    by (simp_all add: wire_header_def)
  from Read_basic_header [OF wire_header_wf [OF assms] None this(2,1)] None
  show ?thesis by (simp add: GetLength_def IsExtended_def)
next
  case (Some e)
  with assms have "nPayloadLength g = 0xFFFFFFFF" "complete g"
    by (simp_all add: wire_header_def)
  from Read_extended_header [OF wire_header_wf [OF assms] Some this(2,1)] Some
  show ?thesis by (simp add: GetLength_def IsExtended_def)
qed

lemma length_fill_command [simp]: "length (fill_command c) = 12"
  by (simp add: fill_command_def)

lemma takeWhile_nonzero: "0 \<notin> set c \<Longrightarrow> takeWhile (\<lambda>x. x \<noteq> 0) (c @ replicate k (0 :: u8)) = c"
  by (induction c) (auto simp add: takeWhile_replicate)

lemma read_fill_command:
  assumes "length c \<le> 12" "0 \<notin> set c"
  shows "read_command (fill_command c) = c"
proof -
  have tw: "takeWhile (\<lambda>x. x \<noteq> 0) c = c" using assms(2) by (auto simp add: takeWhile_eq_all_conv)
  have "take 12 (c @ replicate 12 0) = c @ replicate (12 - length c) (0 :: u8)"
    using assms(1) by simp
  then show ?thesis
    using assms by (simp add: read_command_def fill_command_def tw takeWhile_nonzero)
qed

lemma basic_length:
  assumes "len < (0xFFFFFFFF :: 64 word)"
  shows "(ucast len :: 32 word) \<noteq> 0xFFFFFFFF" "(ucast (ucast len :: 32 word) :: 64 word) = len"
proof -
  have u: "unat len < 4294967295" using assms by (simp add: word_less_nat_alt)
  then have l: "unat len < 2 ^ 32" by simp
  have u32: "unat (ucast len :: 32 word) = unat len"
    using l by (simp add: unsigned_ucast_eq take_bit_nat_eq_self)
  show "(ucast len :: 32 word) \<noteq> 0xFFFFFFFF"
  proof
    assume "(ucast len :: 32 word) = 0xFFFFFFFF"
    then have "unat (ucast len :: 32 word) = unat (0xFFFFFFFF :: 32 word)" by simp
    moreover have "unat (0xFFFFFFFF :: 32 word) = 4294967295" by simp
    ultimately show False using u32 u by linarith
  qed
  have "unat (ucast (ucast len :: 32 word) :: 64 word) = unat len"
    using l u32 by (simp add: unsigned_ucast_eq unsigned_take_bit_eq take_bit_nat_eq_self)
  then show "(ucast (ucast len :: 32 word) :: 64 word) = len"
    by (simp add: word_unat_eq_iff)
qed

lemma make_wire_header:
  assumes "length magic = 4" "4 \<le> length payloadHash"
  shows "wire_header (CMessageHeader_make magic cmd len payloadHash)"
  using assms basic_length(1) [of len]
  by (auto simp add: wire_header_def CMessageHeader_make_def IsExtended_size_def not_le)

lemma make_IsExtended:
  "IsExtended (CMessageHeader_make magic cmd len payloadHash) \<longleftrightarrow> 0xFFFFFFFF \<le> len"
  by (simp add: CMessageHeader_make_def IsExtended_def IsExtended_size_def)

lemma make_GetPayloadLength:
  "GetPayloadLength (CMessageHeader_make magic cmd len payloadHash) = len"
  using basic_length(2) [of len]
  by (auto simp add: CMessageHeader_make_def GetPayloadLength_def IsExtended_size_def not_le)

lemma make_GetCommand:
  "length cmd \<le> 12 \<Longrightarrow> 0 \<notin> set cmd \<Longrightarrow>
   GetCommand (CMessageHeader_make magic cmd len payloadHash) = cmd"
  by (simp add: CMessageHeader_make_def GetCommand_def read_fill_command)

lemma make_GetLength:
  "unat (GetLength (CMessageHeader_make magic cmd len payloadHash)) = GetHeaderSizeForPayload len"
  by (simp add: GetLength_def GetHeaderSizeForPayload_def make_IsExtended IsExtended_size_def)

lemma command_ok_zeros: "command_ok (replicate k 0)"
  by (cases k) (simp_all add: list_all_iff)

lemma command_ok_padded:
  "\<forall>c\<in>set cmd. 0x20 \<le> c \<and> c \<le> 0x7E \<Longrightarrow> command_ok (cmd @ replicate k 0)"
proof (induction cmd)
  case Nil
  show ?case using command_ok_zeros by simp
next
  case (Cons c cs)
  then have "0x20 \<le> c" by simp
  then have "c \<noteq> 0" by auto
  with Cons show ?case by simp
qed

lemma printable_nonzero:
  assumes "\<forall>c\<in>set cmd. (0x20 :: u8) \<le> c \<and> c \<le> 0x7E"
  shows "0 \<notin> set cmd"
proof
  assume "0 \<in> set cmd"
  with assms have "(0x20 :: u8) \<le> 0" by blast
  then show False by simp
qed

lemma command_ok_fill_command:
  assumes "\<forall>c\<in>set cmd. (0x20 :: u8) \<le> c \<and> c \<le> 0x7E" "length cmd \<le> 12"
  shows "command_ok (fill_command cmd)"
proof -
  have tw: "takeWhile (\<lambda>c. c \<noteq> 0) cmd = cmd"
    using printable_nonzero [OF assms(1)] by (auto simp add: takeWhile_eq_all_conv)
  have "take 12 (cmd @ replicate 12 0) = cmd @ replicate (12 - length cmd) (0 :: u8)"
    using assms(2) by simp
  then have "fill_command cmd = cmd @ replicate (12 - length cmd) 0"
    by (simp only: fill_command_def tw COMMAND_SIZE_def)
  then show ?thesis
    using command_ok_padded [OF assms(1)] by simp
qed

lemma command_ok_EXTMSG: "command_ok (fill_command EXTMSG)"
  by (rule command_ok_fill_command) (simp_all add: EXTMSG_def)

lemma make_IsValid:
  assumes "\<forall>c\<in>set cmd. (0x20 :: u8) \<le> c \<and> c \<le> 0x7E" "length cmd \<le> 12"
  shows "IsValid config (CMessageHeader_make (NetMagic config) cmd len payloadHash)"
  using command_ok_fill_command [OF assms] command_ok_EXTMSG
  by (simp add: IsValid_def CheckHeaderMagicAndCommand_def CMessageHeader_make_def)

lemma unat_of_nat_len: "n < 2 ^ 64 \<Longrightarrow> unat (of_nat n :: 64 word) = n"
  by (simp add: unat_of_nat)

lemma feed_wire_message:
  assumes wh: "wire_header g" and ok: "\<not> IsOversized config g" "IsValid config g"
    and len: "unat (GetPayloadLength g) = length payload"
  shows "feed_all config (CNetMessage_init m0) (CMessageHeader_Serialize g @ payload)
         = Inr ((CNetMessage_init m0)\<lparr>hasher := payload, dataBuff := payload, hdr := g\<rparr>)"
proof -
  let ?m0 = "CNetMessage_init m0"
  let ?m1 = "?m0\<lparr>hdr := g, dataBuff := []\<rparr>"
  let ?m2 = "?m0\<lparr>hasher := payload, dataBuff := payload, hdr := g\<rparr>"
  have nc: "\<not> complete (hdr ?m0)"
    by (simp add: CNetMessage_init_def CMessageHeader_init_def)
  have b0: "dataBuff ?m0 = []" "hdr ?m0 = CMessageHeader_init m0" "hasher ?m0 = []"
    by (simp_all add: CNetMessage_init_def)
  have c: "complete g" using wh by (simp add: wire_header_def)
  have r1: "CNetMessage_Read config ?m0 (CMessageHeader_Serialize g @ payload)
            = Inr (unat (GetLength g), ?m1)"
    using ok c by (simp add: Read_header [OF nc] b0 Read_wire_header [OF wh])
  have c1: "complete (hdr ?m1)" using c by simp
  have rem: "remaining ?m1 = length payload"
    using len by (simp add: remaining_def)
  have "?m1\<lparr>hasher := hasher ?m1 @ payload, dataBuff := dataBuff ?m1 @ payload\<rparr> = ?m2"
    by (simp add: CNetMessage_init_def)
  then have r2: "CNetMessage_Read config ?m1 payload = Inr (length payload, ?m2)"
    by (simp add: Read_payload [OF c1] rem)
  have "feed_all config ?m0 (CMessageHeader_Serialize g @ payload) = feed_all config ?m1 payload"
    using length_Serialize [OF wh]
    by (simp add: feed_unfold [of config ?m0] r1)
  also have "\<dots> = feed_all config ?m2 []"
    by (simp add: feed_unfold [of config ?m1] r2)
  also have "\<dots> = Inr ?m2"
    by (simp add: feed_stop)
  finally show ?thesis .
qed

section \<open>The header codec and the assembler\<close>

lemma Unserialize_init_append:
  assumes wf: "hdr_wf g"
  shows "CMessageHeader_Unserialize (CMessageHeader_init m0) (basic_bytes g @ s) =
     Inr (g\<lparr>extendedFields := None, complete := False\<rparr>, s)"
proof -
  have fresh: "\<not> IsExtended (CMessageHeader_init m0)"
    by (simp add: IsExtended_def CMessageHeader_init_def)
  have "(CMessageHeader_init m0)\<lparr>pchMessageStart := pchMessageStart g, pchCommand := pchCommand g,
            nPayloadLength := nPayloadLength g, pchChecksum := pchChecksum g\<rparr>
        = g\<lparr>extendedFields := None, complete := False\<rparr>"
    by (cases g) (simp add: CMessageHeader_init_def)
  with Unserialize_basic_bytes [OF wf fresh, of s] show ?thesis by simp
qed

lemma make_complete: "complete (CMessageHeader_make magic cmd len payloadHash)"
  by (simp add: CMessageHeader_make_def)

text \<open>
  C1. For a command of at most 12 bytes without NUL and a payload shorter than \<open>0xFFFFFFFF\<close>
  bytes, decoding the encoded message gives, after the 24 bytes of a basic header, the header
  that was encoded, not extended, with the same command, the payload's length as declared
  length and the checksum of the payload, and leaves exactly the payload bytes. Reading the
  header with \<open>SerializationOp\<close> alone gives the same fields.
\<close>

theorem basic_header_roundtrip:
  assumes "length magic = 4" and "length (Hash payload) = 32"
    and "length command \<le> 12" and "0 \<notin> set command"
    and "length payload < 0xFFFFFFFF"
  shows "CMessageHeader_Read (CMessageHeader_init magic)
           (encode Hash magic command payload) []
         = Inr (24, CMessageHeader_make magic command (of_nat (length payload)) (Hash payload), [])
     \<and> drop 24 (encode Hash magic command payload) = payload
     \<and> CMessageHeader_Unserialize (CMessageHeader_init magic)
           (encode Hash magic command payload)
         = Inr ((CMessageHeader_make magic command (of_nat (length payload)) (Hash payload))
                  \<lparr>complete := False\<rparr>, payload)
     \<and> \<not> IsExtended (CMessageHeader_make magic command (of_nat (length payload)) (Hash payload))
     \<and> GetCommand (CMessageHeader_make magic command (of_nat (length payload)) (Hash payload))
         = command
     \<and> unat (GetPayloadLength
           (CMessageHeader_make magic command (of_nat (length payload)) (Hash payload)))
         = length payload
     \<and> pchChecksum (CMessageHeader_make magic command (of_nat (length payload)) (Hash payload))
         = take 4 (Hash payload)"
proof -
  let ?len = "of_nat (length payload) :: 64 word"
  let ?g = "CMessageHeader_make magic command ?len (Hash payload)"
  have n: "length payload < 2 ^ 64" using assms(5) by simp
  have ul: "unat ?len = length payload" using n by (rule unat_of_nat_len)
  then have lt: "?len < 0xFFFFFFFF" using assms(5) by (simp add: word_less_nat_alt)
  then have ne: "\<not> IsExtended ?g" by (simp add: make_IsExtended not_le)
  have wh: "wire_header ?g" using assms(1,2) by (intro make_wire_header) simp_all
  have gl: "unat (GetLength ?g) = 24" using ne by (simp add: GetLength_def)
  have ser: "CMessageHeader_Serialize ?g = basic_bytes ?g" using ne by (rule Serialize_basic)
  have l24: "length (basic_bytes ?g) = 24"
    using wire_header_wf [OF wh] by (rule length_basic_bytes)
  have ef: "extendedFields ?g = None" using ne by (simp add: IsExtended_def)
  have "?g\<lparr>extendedFields := None, complete := False\<rparr> = ?g\<lparr>complete := False\<rparr>"
    using ef by (cases ?g) simp
  then have un: "CMessageHeader_Unserialize (CMessageHeader_init magic) (basic_bytes ?g @ payload)
        = Inr (?g\<lparr>complete := False\<rparr>, payload)"
    using Unserialize_init_append [OF wire_header_wf [OF wh], of magic payload] by simp
  have ck: "pchChecksum ?g = take 4 (Hash payload)"
    by (simp add: CMessageHeader_make_def)
  show ?thesis
    using Read_wire_header [OF wh, of magic payload] gl ne ul l24 un ck
      make_GetCommand [OF assms(3,4), of magic ?len "Hash payload"]
    by (simp add: encode_def make_GetPayloadLength ser)
qed

theorem basic_header_roundtrip_witness:
  "length example_magic = 4 \<and> length (example_hash [9, 8, 7]) = 32
   \<and> length example_command \<le> 12 \<and> 0 \<notin> set example_command
   \<and> length [9 :: u8, 8, 7] < 0xFFFFFFFF
   \<and> CMessageHeader_Read (CMessageHeader_init example_magic)
        (encode example_hash example_magic example_command [9, 8, 7]) []
      = Inr (24, CMessageHeader_make example_magic example_command 3 (example_hash [9, 8, 7]), [])
   \<and> drop 24 (encode example_hash example_magic example_command [9, 8, 7]) = [9, 8, 7]
   \<and> GetCommand (CMessageHeader_make example_magic example_command 3 (example_hash [9, 8, 7]))
      = example_command
   \<and> unat (GetPayloadLength
        (CMessageHeader_make example_magic example_command 3 (example_hash [9, 8, 7]))) = 3"
proof -
  have h: "length example_magic = 4" "length (example_hash [9, 8, 7]) = 32"
    "length example_command \<le> 12" "0 \<notin> set example_command"
    "length [9 :: u8, 8, 7] < 0xFFFFFFFF"
    by (simp_all add: example_magic_def example_hash_def example_command_def)
  from basic_header_roundtrip [of example_magic example_hash "[9, 8, 7]" example_command, OF h]
  show ?thesis using h by simp
qed

text \<open>
  C2. The encoder makes an extended header exactly when the payload length is at least
  \<open>0xFFFFFFFF\<close>. Then the header takes 44 bytes, its basic length field holds the sentinel,
  and the decoder recovers the declared length from the 8 bytes of the extended length
  field, whatever the basic field holds. For a smaller length the header takes 24 bytes and
  has no extended fields. In both cases decoding gives back the header that was encoded.
\<close>

theorem extended_framing_iff:
  assumes "length magic = 4" and "length payloadHash = 32"
  shows "(IsExtended (CMessageHeader_make magic command len payloadHash) \<longleftrightarrow> 0xFFFFFFFF \<le> len)
     \<and> CMessageHeader_Read (CMessageHeader_init magic)
           (CMessageHeader_Serialize (CMessageHeader_make magic command len payloadHash) @ rest) []
         = Inr (GetHeaderSizeForPayload len, CMessageHeader_make magic command len payloadHash, [])
     \<and> GetPayloadLength (CMessageHeader_make magic command len payloadHash) = len
     \<and> (0xFFFFFFFF \<le> len \<longrightarrow>
           GetHeaderSizeForPayload len = 44
           \<and> length (CMessageHeader_Serialize (CMessageHeader_make magic command len payloadHash)) = 44
           \<and> nPayloadLength (CMessageHeader_make magic command len payloadHash) = 0xFFFFFFFF
           \<and> GetPayloadLength ((CMessageHeader_make magic command len payloadHash)
                 \<lparr>nPayloadLength := v\<rparr>) = len
           \<and> unser_le (take 8 (drop 36
                 (CMessageHeader_Serialize (CMessageHeader_make magic command len payloadHash))))
               = len)
     \<and> (len < 0xFFFFFFFF \<longrightarrow>
           GetHeaderSizeForPayload len = 24
           \<and> length (CMessageHeader_Serialize (CMessageHeader_make magic command len payloadHash)) = 24
           \<and> extendedFields (CMessageHeader_make magic command len payloadHash) = None
           \<and> nPayloadLength (CMessageHeader_make magic command len payloadHash) = ucast len)"
proof -
  let ?g = "CMessageHeader_make magic command len payloadHash"
  have wh: "wire_header ?g" using assms by (intro make_wire_header) simp_all
  have rd: "CMessageHeader_Read (CMessageHeader_init magic) (CMessageHeader_Serialize ?g @ rest) []
         = Inr (GetHeaderSizeForPayload len, ?g, [])"
    using Read_wire_header [OF wh, of magic rest] by (simp add: make_GetLength)
  have ext: "GetHeaderSizeForPayload len = 44
      \<and> length (CMessageHeader_Serialize ?g) = 44
      \<and> nPayloadLength ?g = 0xFFFFFFFF
      \<and> GetPayloadLength (?g\<lparr>nPayloadLength := v\<rparr>) = len
      \<and> unser_le (take 8 (drop 36 (CMessageHeader_Serialize ?g))) = len"
    if "0xFFFFFFFF \<le> len"
    using that assms
    by (simp add: GetHeaderSizeForPayload_def IsExtended_size_def CMessageHeader_make_def
        GetPayloadLength_def CMessageHeader_Serialize_def IsExtended_def
        CExtendedMessageHeader_Serialize_def)
  have bas: "GetHeaderSizeForPayload len = 24
      \<and> length (CMessageHeader_Serialize ?g) = 24 \<and> extendedFields ?g = None
      \<and> nPayloadLength ?g = ucast len"
    if "len < 0xFFFFFFFF"
    using that assms
    by (simp add: GetHeaderSizeForPayload_def IsExtended_size_def CMessageHeader_make_def not_le
        CMessageHeader_Serialize_def IsExtended_def)
  show ?thesis
    using rd ext bas make_IsExtended [of magic command len payloadHash]
      make_GetPayloadLength [of magic command len payloadHash]
    by blast
qed

theorem extended_framing_iff_witness:
  "length example_magic = 4 \<and> length (example_hash []) = 32
   \<and> IsExtended (CMessageHeader_make example_magic example_command 0xFFFFFFFF (example_hash []))
   \<and> GetPayloadLength
        (CMessageHeader_make example_magic example_command 0xFFFFFFFF (example_hash []))
      = 0xFFFFFFFF
   \<and> length (CMessageHeader_Serialize
        (CMessageHeader_make example_magic example_command 0x100000005 (example_hash []))) = 44
   \<and> unser_le (take 8 (drop 36 (CMessageHeader_Serialize
        (CMessageHeader_make example_magic example_command 0x100000005 (example_hash [])))))
      = (0x100000005 :: 64 word)
   \<and> \<not> IsExtended (CMessageHeader_make example_magic example_command 0xFFFFFFFE (example_hash []))
   \<and> length (CMessageHeader_Serialize
        (CMessageHeader_make example_magic example_command 0xFFFFFFFE (example_hash []))) = 24"
proof -
  have h: "length example_magic = 4" "length (example_hash []) = 32"
    by (simp_all add: example_magic_def example_hash_def)
  have c: "(0xFFFFFFFF :: 64 word) \<le> 0xFFFFFFFF" "(0xFFFFFFFF :: 64 word) \<le> 0x100000005"
    "(0xFFFFFFFE :: 64 word) < 0xFFFFFFFF" "\<not> (0xFFFFFFFF :: 64 word) \<le> 0xFFFFFFFE"
    by simp_all
  from c h
    extended_framing_iff [OF h, where command = example_command and len = "0xFFFFFFFF"
      and rest = "[]" and v = 0]
    extended_framing_iff [OF h, where command = example_command and len = "0x100000005"
      and rest = "[]" and v = 0]
    extended_framing_iff [OF h, where command = example_command and len = "0xFFFFFFFE"
      and rest = "[]" and v = 0]
  show ?thesis by blast
qed






text \<open>
  C4. Feeding the bytes of a message in chunks gives the same result as feeding them all at
  once, so the same \<open>Complete()\<close>, message hash and total length. For an encoded message that
  is valid and within the limit of its command, the result is a complete message whose hash
  is the hash of the payload and whose total length is the header size plus the payload
  length.
\<close>

theorem chunked_feed_same_as_whole:
  "feed_chunks config m chunks = feed_all config m (concat chunks)
   \<and> (\<forall>r. feed_all config m (concat chunks) = Inr r \<longrightarrow>
        (\<exists>r'. feed_chunks config m chunks = Inr r'
           \<and> Complete r' = Complete r
           \<and> fst (GetMessageHash Hash r') = fst (GetMessageHash Hash r)
           \<and> GetTotalLength r' = GetTotalLength r))
   \<and> (length (NetMagic config) = 4 \<longrightarrow> length (Hash payload) = 32 \<longrightarrow>
      length command \<le> 12 \<longrightarrow> (\<forall>c\<in>set command. 0x20 \<le> c \<and> c \<le> 0x7E) \<longrightarrow>
      length payload < 2 ^ 64 \<longrightarrow>
      \<not> GetMaxMessageLength config command < of_nat (length payload) \<longrightarrow>
      concat chunks = encode Hash (NetMagic config) command payload \<longrightarrow>
      (\<exists>r. feed_chunks config (CNetMessage_init (NetMagic config)) chunks = Inr r
         \<and> feed_all config (CNetMessage_init (NetMagic config))
              (encode Hash (NetMagic config) command payload) = Inr r
         \<and> Complete r
         \<and> fst (GetMessageHash Hash r) = Hash payload
         \<and> unat (GetTotalLength r)
            = (GetHeaderSizeForPayload (of_nat (length payload)) + length payload) mod 2 ^ 64))"
proof -
  have enc: "\<exists>r. feed_chunks config (CNetMessage_init (NetMagic config)) chunks = Inr r
         \<and> feed_all config (CNetMessage_init (NetMagic config))
              (encode Hash (NetMagic config) command payload) = Inr r
         \<and> Complete r
         \<and> fst (GetMessageHash Hash r) = Hash payload
         \<and> unat (GetTotalLength r)
            = (GetHeaderSizeForPayload (of_nat (length payload)) + length payload) mod 2 ^ 64"
    if h: "length (NetMagic config) = 4" "length (Hash payload) = 32"
      "length command \<le> 12" "\<forall>c\<in>set command. 0x20 \<le> c \<and> c \<le> 0x7E"
      "length payload < 2 ^ 64"
      "\<not> GetMaxMessageLength config command < of_nat (length payload)"
      "concat chunks = encode Hash (NetMagic config) command payload"
  proof -
    let ?len = "of_nat (length payload) :: 64 word"
    let ?g = "CMessageHeader_make (NetMagic config) command ?len (Hash payload)"
    let ?m0 = "CNetMessage_init (NetMagic config)"
    let ?r = "?m0\<lparr>hasher := payload, dataBuff := payload, hdr := ?g\<rparr>"
    have ul: "unat ?len = length payload" using h(5) by (rule unat_of_nat_len)
    have wh: "wire_header ?g" using h(1,2) by (intro make_wire_header) simp_all
    have nz: "0 \<notin> set command" using h(4) by (rule printable_nonzero)
    have no: "\<not> IsOversized config ?g"
      using h(6) by (simp add: IsOversized_def make_GetPayloadLength make_GetCommand [OF h(3) nz])
    have va: "IsValid config ?g" using h(4,3) by (rule make_IsValid)
    have pl: "unat (GetPayloadLength ?g) = length payload"
      using ul by (simp add: make_GetPayloadLength)
    have f: "feed_all config ?m0 (encode Hash (NetMagic config) command payload) = Inr ?r"
      using feed_wire_message [OF wh no va pl, of "NetMagic config"] by (simp add: encode_def)
    have C: "Complete ?r"
      using wh pl by (simp add: Complete_def wire_header_def)
    have H: "fst (GetMessageHash Hash ?r) = Hash payload"
      by (simp add: GetMessageHash_def CNetMessage_init_def Let_def)
    have "unat (GetTotalLength ?r) = (unat (GetLength ?g) + unat (GetPayloadLength ?g)) mod 2 ^ 64"
      by (simp add: GetTotalLength_def unat_word_ariths)
    then have T: "unat (GetTotalLength ?r)
        = (GetHeaderSizeForPayload ?len + length payload) mod 2 ^ 64"
      using pl by (simp add: make_GetLength)
    show ?thesis
      using f C H T h(7) by (simp add: feed_chunks_concat)
  qed
  then show ?thesis by (simp add: feed_chunks_concat)
qed

theorem chunked_feed_same_as_whole_witness:
  "\<exists>r. feed_chunks example_config (CNetMessage_init (NetMagic example_config))
          (map (\<lambda>b. [b]) (encode example_hash (NetMagic example_config) example_command [9, 8, 7]))
        = Inr r
      \<and> feed_all example_config (CNetMessage_init (NetMagic example_config))
          (encode example_hash (NetMagic example_config) example_command [9, 8, 7]) = Inr r
      \<and> Complete r
      \<and> fst (GetMessageHash example_hash r) = example_hash [9, 8, 7]
      \<and> unat (GetTotalLength r) = 27"
proof -
  have h: "length (NetMagic example_config) = 4" "length (example_hash [9, 8, 7]) = 32"
    "length example_command \<le> 12" "\<forall>c\<in>set example_command. 0x20 \<le> c \<and> c \<le> 0x7E"
    "length [9 :: u8, 8, 7] < 2 ^ 64"
    "\<not> GetMaxMessageLength example_config example_command < of_nat (length [9 :: u8, 8, 7])"
    by (simp_all add: example_config_def example_magic_def example_hash_def example_command_def)
  have c: "concat (map (\<lambda>b. [b])
            (encode example_hash (NetMagic example_config) example_command [9, 8, 7]))
           = encode example_hash (NetMagic example_config) example_command [9, 8, 7]"
    by (simp add: concat_map_singleton)
  have s: "(GetHeaderSizeForPayload (of_nat (length [9 :: u8, 8, 7])) + length [9 :: u8, 8, 7])
            mod 2 ^ 64 = 27"
    by (simp add: GetHeaderSizeForPayload_def IsExtended_size_def)
  from chunked_feed_same_as_whole [where config = example_config
      and m = "CNetMessage_init (NetMagic example_config)"
      and chunks = "map (\<lambda>b. [b])
        (encode example_hash (NetMagic example_config) example_command [9, 8, 7])"
      and Hash = example_hash and payload = "[9, 8, 7]" and command = example_command] h c s
  show ?thesis by auto
qed

text \<open>
  C5. \<open>CNetMessage::Complete()\<close> holds exactly when the header is complete and the declared
  payload length is the number of bytes in the payload buffer.
\<close>

theorem Complete_iff:
  "Complete m \<longleftrightarrow>
     hdr_Complete (hdr m) \<and> unat (GetPayloadLength (hdr m)) = length (dataBuff m)"
  by (simp add: Complete_def)

theorem Complete_iff_witness:
  "Complete ((CNetMessage_init example_magic)
      \<lparr>dataBuff := [9, 8, 7],
        hdr := CMessageHeader_make example_magic example_command 3 (example_hash [9, 8, 7])\<rparr>)
   \<and> \<not> Complete ((CNetMessage_init example_magic)
      \<lparr>dataBuff := [9, 8],
        hdr := CMessageHeader_make example_magic example_command 3 (example_hash [9, 8, 7])\<rparr>)
   \<and> \<not> Complete (CNetMessage_init example_magic)"
  using Complete_iff [of "(CNetMessage_init example_magic)
      \<lparr>dataBuff := [9, 8, 7],
        hdr := CMessageHeader_make example_magic example_command 3 (example_hash [9, 8, 7])\<rparr>"]
    Complete_iff [of "(CNetMessage_init example_magic)
      \<lparr>dataBuff := [9, 8],
        hdr := CMessageHeader_make example_magic example_command 3 (example_hash [9, 8, 7])\<rparr>"]
    Complete_iff [of "CNetMessage_init example_magic"]
  by (simp add: make_GetPayloadLength make_complete
      CNetMessage_init_def CMessageHeader_init_def)

end
